theory Spec2Isabelle
  imports Complex_Main
begin

section \<open>Data model\<close>

text \<open>
  The program (\<^verbatim>\<open>BTC_Addresses_Graph.py\<close>) crawls the transaction history of Bitcoin
  addresses and builds a weighted address graph. A transaction is the JSON object
  delivered by the ledger service. Every key the code reads with \<^verbatim>\<open>.get\<close> is optional:
  \<open>None\<close> stands for a key that is absent (for \<^verbatim>\<open>prev_out\<close>, \<^verbatim>\<open>addr\<close> and \<^verbatim>\<open>value\<close>
  also for a JSON \<^verbatim>\<open>null\<close>, which the code treats alike).

  Amounts are Python floats in the source, that is IEEE binary64 numbers. A finite
  double is modelled as the rational number it denotes, and every arithmetic operation
  of the source rounds its exact result to the nearest double, ties to the even
  significand, as the hardware does.
\<close>

type_synonym address = string

record prev_out_obj =
  po_addr :: "address option"

record tx_input =
  prev_out :: "prev_out_obj option"

record tx_output =
  out_addr :: "address option"
  out_value :: "int option"

record transaction =
  inputs :: "tx_input list option"
  out :: "tx_output list option"


section \<open>Python floats\<close>

text \<open>
  A double has a significand of 53 bits. \<open>float_exp x\<close> is the exponent \<open>e\<close> of the unit
  in the last place of \<open>x\<close>, so that \<open>2 ^ 52 \<le> \<bar>x\<bar> / 2 ^ e < 2 ^ 53\<close>; it is computed from
  the bit lengths of the numerator and the denominator (\<open>bit_length\<close> counts the binary
  digits of a positive integer). \<open>to_double x\<close> rounds
  \<open>x / 2 ^ e\<close> to the nearest integer, a tie to the even one, and scales back. The range
  of the exponent is not bounded here: overflow to infinity and gradual underflow are
  not modelled, so the model agrees with binary64 for results between \<open>2 ^ - 1022\<close> and
  \<open>2 ^ 1024\<close> in magnitude and for zero. Amounts of the ledger (at most 21 million coins of
  \<open>10 ^ 8\<close> units) and their quotients and sums are far inside that range.
\<close>

type_synonym pyfloat = rat

definition round_half_even :: "rat \<Rightarrow> int" where
  "round_half_even y =
     (let f = \<lfloor>y\<rfloor>; r = y - of_int f
      in if r < 1 / 2 then f else if 1 / 2 < r then f + 1 else if even f then f else f + 1)"

function bit_length :: "int \<Rightarrow> int" where
  "bit_length n = (if n \<le> 0 then 0 else 1 + bit_length (n div 2))"
  by auto
termination
  by (relation "measure nat") auto

declare bit_length.simps [simp del]

definition float_exp :: "rat \<Rightarrow> int" where
  "float_exp x =
     (let (p, d) = quotient_of \<bar>x\<bar>;
          k = bit_length p - bit_length d
      in (if 2 powi k \<le> \<bar>x\<bar> then k else k - 1) - 52)"

definition to_double :: "rat \<Rightarrow> pyfloat" where
  "to_double x =
     (if x = 0 then 0
      else of_int (round_half_even (x / 2 powi float_exp x)) * 2 powi float_exp x)"

text \<open>
  The conversion of an \<^verbatim>\<open>int\<close> to a \<^verbatim>\<open>float\<close> (which Python applies to the \<^verbatim>\<open>int\<close> operand
  of a mixed operation), the sum \<^verbatim>\<open>x + y\<close> and the quotient \<^verbatim>\<open>x / y\<close> of two floats.
\<close>

definition float_of_int :: "int \<Rightarrow> pyfloat" where
  "float_of_int v = to_double (of_int v)"

definition fadd :: "pyfloat \<Rightarrow> pyfloat \<Rightarrow> pyfloat" where
  "fadd x y = to_double (x + y)"

definition fdiv :: "pyfloat \<Rightarrow> pyfloat \<Rightarrow> pyfloat" where
  "fdiv x y = to_double (x / y)"

text \<open>An edge triple \<^verbatim>\<open>(u, v, weight)\<close>.\<close>

type_synonym edge = "address \<times> address \<times> pyfloat"

section \<open>Edge extractor\<close>

text \<open>
  \<^verbatim>\<open>for i in tx.get("inputs", []): prev = i.get("prev_out") or {};
  a = prev.get("addr"); if a: inputs.append(a)\<close>.
  The accumulator is the list \<^verbatim>\<open>inputs\<close>; an empty string is falsy in Python.
\<close>

fun collect_inputs :: "tx_input list \<Rightarrow> address list \<Rightarrow> address list" where
  "collect_inputs [] acc = acc"
| "collect_inputs (i # rest) acc =
     (let prev = (case prev_out i of None \<Rightarrow> \<lparr>po_addr = None\<rparr> | Some p \<Rightarrow> p);
          a = po_addr prev
      in collect_inputs rest
           (case a of None \<Rightarrow> acc | Some s \<Rightarrow> if s \<noteq> [] then acc @ [s] else acc))"

text \<open>
  \<^verbatim>\<open>for o in tx.get("out", []): a = o.get("addr");
  val_btc = (o.get("value") or 0) / 1e8; if a and val_btc > 0: outs.append((a, val_btc))\<close>.
\<close>

fun collect_outs :: "tx_output list \<Rightarrow> (address \<times> pyfloat) list \<Rightarrow> (address \<times> pyfloat) list" where
  "collect_outs [] acc = acc"
| "collect_outs (ou # rest) acc =
     (let a = out_addr ou;
          val_btc = fdiv (float_of_int (case out_value ou of None \<Rightarrow> 0 | Some v \<Rightarrow> v)) 100000000
      in collect_outs rest
           (case a of None \<Rightarrow> acc
            | Some s \<Rightarrow> if s \<noteq> [] \<and> val_btc > 0 then acc @ [(s, val_btc)] else acc))"

definition tx_inputs :: "transaction \<Rightarrow> address list" where
  "tx_inputs tx = collect_inputs (case inputs tx of None \<Rightarrow> [] | Some xs \<Rightarrow> xs) []"

definition tx_outs :: "transaction \<Rightarrow> (address \<times> pyfloat) list" where
  "tx_outs tx = collect_outs (case out tx of None \<Rightarrow> [] | Some xs \<Rightarrow> xs) []"

text \<open>The inner loop \<^verbatim>\<open>for out_a, val in outs: edges.append((in_a, out_a, val / denom))\<close>.\<close>

fun emit_outs :: "address \<Rightarrow> nat \<Rightarrow> (address \<times> pyfloat) list \<Rightarrow> edge list \<Rightarrow> edge list" where
  "emit_outs in_a denom [] edges = edges"
| "emit_outs in_a denom ((out_a, val) # rest) edges =
     emit_outs in_a denom rest (edges @ [(in_a, out_a, fdiv val (float_of_int (int denom)))])"

text \<open>The outer loop \<^verbatim>\<open>for in_a in inputs\<close>.\<close>

fun emit_inputs :: "address list \<Rightarrow> nat \<Rightarrow> (address \<times> pyfloat) list \<Rightarrow> edge list \<Rightarrow> edge list" where
  "emit_inputs [] denom outs edges = edges"
| "emit_inputs (in_a # rest) denom outs edges =
     emit_inputs rest denom outs (emit_outs in_a denom outs edges)"

text \<open>
  The body of \<^verbatim>\<open>for tx in txs\<close>: a transaction without resolvable inputs or without
  resolvable outputs is passed over (\<^verbatim>\<open>continue\<close>); \<^verbatim>\<open>denom = max(1, len(inputs))\<close>.
\<close>

definition tx_edges :: "transaction \<Rightarrow> edge list \<Rightarrow> edge list" where
  "tx_edges tx edges =
     (let ins = tx_inputs tx; outs = tx_outs tx
      in if ins = [] \<or> outs = [] then edges
         else emit_inputs ins (max 1 (length ins)) outs edges)"

fun edges_loop :: "transaction list \<Rightarrow> edge list \<Rightarrow> edge list" where
  "edges_loop [] edges = edges"
| "edges_loop (tx # txs) edges = edges_loop txs (tx_edges tx edges)"

definition address_edges_from_txs :: "transaction list \<Rightarrow> edge list" where
  "address_edges_from_txs txs = edges_loop txs []"

section \<open>Transaction fetcher\<close>

text \<open>
  The ledger service is the only collaborator. A request is the triple the code sends
  (\<^verbatim>\<open>rawaddr/{address}\<close> with \<^verbatim>\<open>limit\<close> and \<^verbatim>\<open>offset\<close>); the session answers it either
  with an exception (transport failure, \<^verbatim>\<open>raise_for_status\<close>, JSON decoding) or with the
  list under the key \<^verbatim>\<open>txs\<close> of the decoded body (\<open>[]\<close> when the key is absent).
\<close>

datatype fetch_error = FetchError string

record request =
  req_address :: address
  req_limit :: int
  req_offset :: int

type_synonym session = "request \<Rightarrow> fetch_error + transaction list"

text \<open>
  The loop \<^verbatim>\<open>while len(txs) < max_txs\<close> of \<^verbatim>\<open>fetch_txs_blockchain_info\<close>. For a page
  size that is not positive the loop need not end, so it runs on fuel: \<open>None\<close> says that
  the fuel was used up before the loop was left. The first component of the result is
  the trace of the requests sent, in order; the second is the exception that left the
  function, or the accumulated list \<^verbatim>\<open>txs\<close>.
\<close>

fun fetch_loop ::
  "nat \<Rightarrow> session \<Rightarrow> address \<Rightarrow> int \<Rightarrow> int \<Rightarrow> transaction list \<Rightarrow> int \<Rightarrow>
   (request list \<times> (fetch_error + transaction list)) option" where
  "fetch_loop 0 get address limit_each max_txs txs offset = None"
| "fetch_loop (Suc fuel) get address limit_each max_txs txs offset =
     (if int (length txs) < max_txs then
        (let params = \<lparr>req_address = address, req_limit = min limit_each 50, req_offset = offset\<rparr>
         in case get params of
              Inl e \<Rightarrow> Some ([params], Inl e)
            | Inr batch \<Rightarrow>
                if int (length batch) < req_limit params then Some ([params], Inr (txs @ batch))
                else (case fetch_loop fuel get address limit_each max_txs (txs @ batch)
                             (offset + req_limit params) of
                        None \<Rightarrow> None
                      | Some (reqs, r) \<Rightarrow> Some (params # reqs, r)))
      else Some ([], Inr txs))"

text \<open>The slice \<^verbatim>\<open>xs[:k]\<close>; a negative \<open>k\<close> counts from the end.\<close>

definition py_prefix :: "'a list \<Rightarrow> int \<Rightarrow> 'a list" where
  "py_prefix xs k = (if 0 \<le> k then take (nat k) xs else take (length xs - nat (- k)) xs)"

definition fetch_txs_blockchain_info ::
  "nat \<Rightarrow> session \<Rightarrow> address \<Rightarrow> int \<Rightarrow> int \<Rightarrow>
   (request list \<times> (fetch_error + transaction list)) option" where
  "fetch_txs_blockchain_info fuel get address limit_each max_txs =
     (case fetch_loop fuel get address limit_each max_txs [] 0 of
        None \<Rightarrow> None
      | Some (reqs, Inl e) \<Rightarrow> Some (reqs, Inl e)
      | Some (reqs, Inr txs) \<Rightarrow> Some (reqs, Inr (py_prefix txs max_txs)))"

text \<open>The pages that a trace of requests was answered with (nothing for a failed request).\<close>

definition page_of :: "session \<Rightarrow> request \<Rightarrow> transaction list" where
  "page_of get rq = (case get rq of Inl e \<Rightarrow> [] | Inr batch \<Rightarrow> batch)"

definition received :: "session \<Rightarrow> request list \<Rightarrow> transaction list" where
  "received get reqs = concat (map (page_of get) reqs)"

section \<open>Graph crawler\<close>

text \<open>
  The tunable constants at the head of the file. \<^verbatim>\<open>MAX_DEPTH\<close> counts layers
  (0 = the seed only) and the other two count transactions and nodes, so all three are
  natural numbers.
\<close>

record config =
  MAX_DEPTH :: nat
  MAX_TX_PER_ADDRESS :: nat
  MAX_NODES :: nat

text \<open>
  A \<^verbatim>\<open>defaultdict(float)\<close> is an association list with distinct keys in insertion
  order. \<open>dd_add k w d\<close> is \<^verbatim>\<open>d[k] += w\<close>: a missing key starts from \<open>0.0\<close>.
  \<open>dict_get0 d k\<close> is \<^verbatim>\<open>d.get(k, 0.0)\<close>.
\<close>

fun dd_add :: "'k \<Rightarrow> pyfloat \<Rightarrow> ('k \<times> pyfloat) list \<Rightarrow> ('k \<times> pyfloat) list" where
  "dd_add k w [] = [(k, fadd 0 w)]"
| "dd_add k w ((k', x) # rest) =
     (if k' = k then (k', fadd x w) # rest else (k', x) # dd_add k w rest)"

definition dict_get0 :: "('k \<times> pyfloat) list \<Rightarrow> 'k \<Rightarrow> pyfloat" where
  "dict_get0 d k = (case map_of d k of None \<Rightarrow> 0 | Some x \<Rightarrow> x)"

text \<open>\<open>dict_set k w d\<close> is \<^verbatim>\<open>d[k] = w\<close> on an ordinary dictionary.\<close>

fun dict_set :: "'k \<Rightarrow> pyfloat \<Rightarrow> ('k \<times> pyfloat) list \<Rightarrow> ('k \<times> pyfloat) list" where
  "dict_set k w [] = [(k, w)]"
| "dict_set k w ((k', x) # rest) =
     (if k' = k then (k', w) # rest else (k', x) # dict_set k w rest)"

text \<open>
  The \<^verbatim>\<open>networkx.DiGraph\<close>: its nodes in insertion order and the weight attribute of its
  edges. \<^verbatim>\<open>add_edge\<close> creates the endpoints it does not find and overwrites the weight
  of an edge that is already there; \<^verbatim>\<open>len(G)\<close> is the number of nodes.
\<close>

record graph =
  g_nodes :: "address list"
  g_edges :: "((address \<times> address) \<times> pyfloat) list"

definition has_node :: "graph \<Rightarrow> address \<Rightarrow> bool" where
  "has_node g n = (n \<in> set (g_nodes g))"

definition add_node :: "graph \<Rightarrow> address \<Rightarrow> graph" where
  "add_node g n = (if n \<in> set (g_nodes g) then g else g\<lparr>g_nodes := g_nodes g @ [n]\<rparr>)"

definition add_edge :: "graph \<Rightarrow> address \<Rightarrow> address \<Rightarrow> pyfloat \<Rightarrow> graph" where
  "add_edge g u v w =
     (let g' = add_node (add_node g u) v in g'\<lparr>g_edges := dict_set (u, v) w (g_edges g')\<rparr>)"

definition len_G :: "graph \<Rightarrow> nat" where
  "len_G g = length (g_nodes g)"

text \<open>
  A Python \<^verbatim>\<open>set\<close> that is iterated (\<^verbatim>\<open>neigh_to_enqueue\<close>) is a list without
  repetitions; \<open>set_add\<close> is \<^verbatim>\<open>.add\<close>. Python does not fix the order in which a set is
  iterated: it follows the hashes of the elements and the history of the insertions.
  The crawl therefore takes as a parameter a ranking of the elements that may depend on
  the list of the insertions, and iterates in the order of the ranks; every order that
  is a function of the insertion history is the order of some ranking.
\<close>

definition set_add :: "'a \<Rightarrow> 'a list \<Rightarrow> 'a list" where
  "set_add x xs = (if x \<in> set xs then xs else xs @ [x])"

definition set_iter :: "(address list \<Rightarrow> address \<Rightarrow> nat) \<Rightarrow> address list \<Rightarrow> address list" where
  "set_iter hash xs = sort_key (hash xs) xs"

text \<open>
  The state of \<^verbatim>\<open>crawl_graph\<close>: its local variables, the lines printed, and the
  addresses that \<^verbatim>\<open>fetch_txs_blockchain_info\<close> was called with, in order. The last two
  are the effects of the function on the outside; the source has no variable for them.
\<close>

record crawl_state =
  G :: graph
  visited :: "address set"
  q :: "(address \<times> nat) list"
  edge_w :: "((address \<times> address) \<times> pyfloat) list"
  node_amount :: "(address \<times> pyfloat) list"
  stdout :: "string list"
  fetched :: "address list"

definition init_state :: "address \<Rightarrow> crawl_state" where
  "init_state seed_address =
     \<lparr>G = \<lparr>g_nodes = [], g_edges = []\<rparr>, visited = {}, q = [(seed_address, 0)],
      edge_w = [], node_amount = [], stdout = [], fetched = []\<rparr>"

text \<open>
  \<^verbatim>\<open>for u, v, w in edges: edge_w[(u, v)] += w; node_amount[u] += w;
  node_amount[v] += w; if depth < MAX_DEPTH: neigh_to_enqueue.add(v)\<close>.
\<close>

fun accumulate ::
  "config \<Rightarrow> nat \<Rightarrow> edge list \<Rightarrow>
   ((address \<times> address) \<times> pyfloat) list \<times> (address \<times> pyfloat) list \<times> address list \<Rightarrow>
   ((address \<times> address) \<times> pyfloat) list \<times> (address \<times> pyfloat) list \<times> address list" where
  "accumulate cfg depth [] acc = acc"
| "accumulate cfg depth ((u, v, w) # rest) (ew, na, neigh) =
     accumulate cfg depth rest
       (dd_add (u, v) w ew,
        dd_add v w (dd_add u w na),
        if depth < MAX_DEPTH cfg then set_add v neigh else neigh)"

text \<open>
  \<^verbatim>\<open>for (u, v), w in edge_w.items(): if not G.has_node(u): G.add_node(u);
  if not G.has_node(v): G.add_node(v); G.add_edge(u, v, weight=w)\<close>.
\<close>

fun write_edges :: "((address \<times> address) \<times> pyfloat) list \<Rightarrow> graph \<Rightarrow> graph" where
  "write_edges [] g = g"
| "write_edges (((u, v), w) # rest) g =
     (let g1 = (if \<not> has_node g u then add_node g u else g);
          g2 = (if \<not> has_node g1 v then add_node g1 v else g1)
      in write_edges rest (add_edge g2 u v w))"

text \<open>
  \<^verbatim>\<open>for nb in neigh_to_enqueue: if nb not in visited and len(G) < MAX_NODES:
  q.append((nb, depth + 1))\<close>.
\<close>

fun enqueue ::
  "config \<Rightarrow> address set \<Rightarrow> graph \<Rightarrow> nat \<Rightarrow> address list \<Rightarrow> (address \<times> nat) list \<Rightarrow>
   (address \<times> nat) list" where
  "enqueue cfg vis g depth [] queue = queue"
| "enqueue cfg vis g depth (nb # rest) queue =
     enqueue cfg vis g depth rest
       (if nb \<notin> vis \<and> len_G g < MAX_NODES cfg then queue @ [(nb, depth + 1)] else queue)"

text \<open>The line that the handler of a failed fetch prints.\<close>

definition warn_line :: "address \<Rightarrow> fetch_error \<Rightarrow> string" where
  "warn_line addr e =
     (case e of FetchError msg \<Rightarrow> ''[warn] fetch '' @ addr @ '' failed: '' @ msg)"

text \<open>
  The condition and the body of \<^verbatim>\<open>while q and len(G) < MAX_NODES\<close>. The argument
  \<open>fetch\<close> is the call \<^verbatim>\<open>fetch_txs_blockchain_info(addr, max_txs=MAX_TX_PER_ADDRESS)\<close> as
  a function of \<open>addr\<close>: \<open>Inl\<close> is the exception that the \<^verbatim>\<open>try\<close> catches. The body is
  only run when the condition holds, so the queue is not empty there.
\<close>

definition loop_cond :: "config \<Rightarrow> crawl_state \<Rightarrow> bool" where
  "loop_cond cfg s = (q s \<noteq> [] \<and> len_G (G s) < MAX_NODES cfg)"

definition crawl_step ::
  "config \<Rightarrow> (address \<Rightarrow> fetch_error + transaction list) \<Rightarrow> (address list \<Rightarrow> address \<Rightarrow> nat) \<Rightarrow>
   crawl_state \<Rightarrow> crawl_state" where
  "crawl_step cfg fetch hash s =
     (case q s of
        [] \<Rightarrow> s
      | (addr, depth) # rest \<Rightarrow>
          (let s1 = s\<lparr>q := rest\<rparr>
           in if addr \<in> visited s1 then s1
              else
                (let s2 = s1\<lparr>visited := insert addr (visited s1),
                             G := add_node (G s1) addr,
                             fetched := fetched s1 @ [addr]\<rparr>
                 in case fetch addr of
                      Inl e \<Rightarrow> s2\<lparr>stdout := stdout s2 @ [warn_line addr e]\<rparr>
                    | Inr txs \<Rightarrow>
                        (let edges = address_edges_from_txs txs;
                             (ew, na, neigh) =
                               accumulate cfg depth edges (edge_w s2, node_amount s2, []);
                             g = write_edges ew (G s2)
                         in s2\<lparr>edge_w := ew, node_amount := na, G := g,
                                q := enqueue cfg (visited s2) g depth (set_iter hash neigh)
                                       (q s2)\<rparr>))))"

text \<open>
  The state after at most \<open>n\<close> rounds of the loop: it stays where the loop is left.
  \<^verbatim>\<open>crawl_graph\<close> returns \<^verbatim>\<open>(G, {"node_amount": node_amount, "edges_weight": edge_w})\<close>
  when the loop is left; \<open>None\<close> says that \<open>n\<close> rounds were not enough.
\<close>

fun crawl_iter ::
  "nat \<Rightarrow> config \<Rightarrow> (address \<Rightarrow> fetch_error + transaction list) \<Rightarrow> (address list \<Rightarrow> address \<Rightarrow> nat) \<Rightarrow>
   crawl_state \<Rightarrow> crawl_state" where
  "crawl_iter 0 cfg fetch hash s = s"
| "crawl_iter (Suc n) cfg fetch hash s =
     (if loop_cond cfg s then crawl_iter n cfg fetch hash (crawl_step cfg fetch hash s) else s)"

definition crawl_graph ::
  "nat \<Rightarrow> config \<Rightarrow> (address \<Rightarrow> fetch_error + transaction list) \<Rightarrow> (address list \<Rightarrow> address \<Rightarrow> nat) \<Rightarrow>
   address \<Rightarrow>
   (graph \<times> (address \<times> pyfloat) list \<times> ((address \<times> address) \<times> pyfloat) list) option" where
  "crawl_graph n cfg fetch hash seed_address =
     (let s = crawl_iter n cfg fetch hash (init_state seed_address)
      in if loop_cond cfg s then None else Some (G s, node_amount s, edge_w s))"

text \<open>
  The call of the fetcher that \<^verbatim>\<open>crawl_graph\<close> makes, with the default page size 50.
  With a positive page size the loop of the fetcher ends within
  \<open>MAX_TX_PER_ADDRESS + 1\<close> rounds (lemma \<open>fetch_call_returns\<close>), so the case \<open>None\<close>
  does not occur.
\<close>

definition fetch_call :: "config \<Rightarrow> session \<Rightarrow> address \<Rightarrow> fetch_error + transaction list" where
  "fetch_call cfg get addr =
     (case fetch_txs_blockchain_info (Suc (MAX_TX_PER_ADDRESS cfg)) get addr 50
             (int (MAX_TX_PER_ADDRESS cfg)) of
        None \<Rightarrow> Inr []
      | Some (reqs, r) \<Rightarrow> r)"

section \<open>Vocabulary of the properties\<close>

text \<open>
  The edges that the crawl extracts for an address (none when the fetch fails), and all
  edge triples attributed so far: the batches of the addresses fetched, in order.
\<close>

definition batch_edges :: "(address \<Rightarrow> fetch_error + transaction list) \<Rightarrow> address \<Rightarrow> edge list" where
  "batch_edges fetch a = (case fetch a of Inl e \<Rightarrow> [] | Inr txs \<Rightarrow> address_edges_from_txs txs)"

definition attributed ::
  "(address \<Rightarrow> fetch_error + transaction list) \<Rightarrow> crawl_state \<Rightarrow> edge list" where
  "attributed fetch s = concat (map (batch_edges fetch) (fetched s))"

text \<open>
  The weights of a list of edge triples, those attributed to one ordered pair, and those
  that reach the node amount of one address: the weight of a triple once when the
  address is its source and once more when it is its destination. All in the order of
  the list.
\<close>

definition edge_weights :: "edge list \<Rightarrow> pyfloat list" where
  "edge_weights es = map (\<lambda>(u, v, w). w) es"

definition pair_weights :: "address \<times> address \<Rightarrow> edge list \<Rightarrow> pyfloat list" where
  "pair_weights p es = edge_weights (filter (\<lambda>(u, v, w). (u, v) = p) es)"

definition node_weights :: "address \<Rightarrow> edge list \<Rightarrow> pyfloat list" where
  "node_weights a es =
     concat (map (\<lambda>(u, v, w). (if u = a then [w] else []) @ (if v = a then [w] else [])) es)"

text \<open>
  The weights of the accumulated edges at an address, an edge once for its source side
  and once for its destination side.
\<close>

definition incident_weights :: "address \<Rightarrow> ((address \<times> address) \<times> pyfloat) list \<Rightarrow> pyfloat list" where
  "incident_weights a ew =
     concat (map (\<lambda>((u, v), w). (if u = a then [w] else []) @ (if v = a then [w] else [])) ew)"

text \<open>
  Two readings of the sum of a list of floats: the sum that Python accumulates with
  \<^verbatim>\<open>+=\<close> from \<^verbatim>\<open>0.0\<close>, from left to right, every addition rounded; and the sum of the
  numbers that the floats denote, which is \<open>sum_list\<close>.
\<close>

definition float_sum :: "pyfloat list \<Rightarrow> pyfloat" where
  "float_sum ws = foldl fadd 0 ws"

section \<open>Concrete inputs\<close>

definition tx_two_in_one_out :: transaction where
  "tx_two_in_one_out =
     \<lparr>inputs = Some [\<lparr>prev_out = Some \<lparr>po_addr = Some ''A''\<rparr>\<rparr>, \<lparr>prev_out = Some \<lparr>po_addr = Some ''D''\<rparr>\<rparr>],
      out = Some [\<lparr>out_addr = Some ''B'', out_value = Some 200000000\<rparr>]\<rparr>"

definition tx_no_inputs :: transaction where
  "tx_no_inputs =
     \<lparr>inputs = Some [\<lparr>prev_out = None\<rparr>],
      out = Some [\<lparr>out_addr = Some ''B'', out_value = Some 100000000\<rparr>]\<rparr>"

definition zero_output :: tx_output where
  "zero_output = \<lparr>out_addr = Some ''C'', out_value = Some 0\<rparr>"

definition input_without_prev_out :: tx_input where
  "input_without_prev_out = \<lparr>prev_out = None\<rparr>"

definition output_without_value :: tx_output where
  "output_without_value = \<lparr>out_addr = Some ''C'', out_value = None\<rparr>"

definition tx_one_in_two_out :: transaction where
  "tx_one_in_two_out =
     \<lparr>inputs = Some [\<lparr>prev_out = Some \<lparr>po_addr = Some ''A''\<rparr>\<rparr>],
      out = Some [\<lparr>out_addr = Some ''B'', out_value = Some 100000000\<rparr>,
                  \<lparr>out_addr = Some ''C'', out_value = Some 50000000\<rparr>]\<rparr>"

definition fetch_scenario :: "address \<Rightarrow> fetch_error + transaction list" where
  "fetch_scenario addr = (if addr = ''A'' then Inr [tx_one_in_two_out] else Inr [])"

text \<open>A ranking that leaves every set in the order of its insertions.\<close>

definition hash_zero :: "address list \<Rightarrow> address \<Rightarrow> nat" where
  "hash_zero xs a = 0"

definition cfg_default :: config where
  "cfg_default = \<lparr>MAX_DEPTH = 2, MAX_TX_PER_ADDRESS = 50, MAX_NODES = 5000\<rparr>"

definition cfg_small :: config where
  "cfg_small = \<lparr>MAX_DEPTH = 2, MAX_TX_PER_ADDRESS = 50, MAX_NODES = 2\<rparr>"

definition cfg_depth0 :: config where
  "cfg_depth0 = \<lparr>MAX_DEPTH = 0, MAX_TX_PER_ADDRESS = 50, MAX_NODES = 5000\<rparr>"

definition fetch_failing :: "address \<Rightarrow> fetch_error + transaction list" where
  "fetch_failing addr = Inl (FetchError ''timeout'')"

definition tx_B_to_C :: transaction where
  "tx_B_to_C =
     \<lparr>inputs = Some [\<lparr>prev_out = Some \<lparr>po_addr = Some ''B''\<rparr>\<rparr>],
      out = Some [\<lparr>out_addr = Some ''C'', out_value = Some 25000000\<rparr>]\<rparr>"

definition fetch_diamond :: "address \<Rightarrow> fetch_error + transaction list" where
  "fetch_diamond addr =
     (if addr = ''A'' then Inr [tx_one_in_two_out]
      else if addr = ''B'' then Inr [tx_B_to_C] else Inr [])"

text \<open>
  The states after one, two and three rounds from the seed A with \<open>fetch_diamond\<close>:
  C is enqueued by A and again by B, so after C has been visited it is still the head
  of the frontier.
\<close>

definition diamond_1 :: crawl_state where
  "diamond_1 =
     \<lparr>G = \<lparr>g_nodes = [''A'', ''B'', ''C''],
            g_edges = [((''A'', ''B''), 1), ((''A'', ''C''), 1 / 2)]\<rparr>,
      visited = {''A''}, q = [(''B'', 1), (''C'', 1)],
      edge_w = [((''A'', ''B''), 1), ((''A'', ''C''), 1 / 2)],
      node_amount = [(''A'', 3 / 2), (''B'', 1), (''C'', 1 / 2)],
      stdout = [], fetched = [''A'']\<rparr>"

definition diamond_2 :: crawl_state where
  "diamond_2 =
     \<lparr>G = \<lparr>g_nodes = [''A'', ''B'', ''C''],
            g_edges = [((''A'', ''B''), 1), ((''A'', ''C''), 1 / 2), ((''B'', ''C''), 1 / 4)]\<rparr>,
      visited = {''B'', ''A''}, q = [(''C'', 1), (''C'', 2)],
      edge_w = [((''A'', ''B''), 1), ((''A'', ''C''), 1 / 2), ((''B'', ''C''), 1 / 4)],
      node_amount = [(''A'', 3 / 2), (''B'', 5 / 4), (''C'', 3 / 4)],
      stdout = [], fetched = [''A'', ''B'']\<rparr>"

definition state_revisit :: crawl_state where
  "state_revisit =
     \<lparr>G = \<lparr>g_nodes = [''A'', ''B'', ''C''],
            g_edges = [((''A'', ''B''), 1), ((''A'', ''C''), 1 / 2), ((''B'', ''C''), 1 / 4)]\<rparr>,
      visited = {''C'', ''B'', ''A''}, q = [(''C'', 2)],
      edge_w = [((''A'', ''B''), 1), ((''A'', ''C''), 1 / 2), ((''B'', ''C''), 1 / 4)],
      node_amount = [(''A'', 3 / 2), (''B'', 5 / 4), (''C'', 3 / 4)],
      stdout = [], fetched = [''A'', ''B'', ''C'']\<rparr>"

definition session_two_pages :: session where
  "session_two_pages rq =
     (if req_offset rq = 0 then Inr [tx_one_in_two_out, tx_two_in_one_out]
      else Inr [tx_no_inputs, tx_one_in_two_out])"

text \<open>
  Inputs on which the rounding shows: ten inputs and one output of 1.0; three
  transactions from A to B of 0.1, 0.2 and 0.3; one transaction from A with the outputs
  (B, 0.1), (C, 0.2) and (B, 0.4).
\<close>

definition input_A :: tx_input where
  "input_A = \<lparr>prev_out = Some \<lparr>po_addr = Some ''A''\<rparr>\<rparr>"


definition tx_A_to_B :: "int \<Rightarrow> transaction" where
  "tx_A_to_B v =
     \<lparr>inputs = Some [input_A], out = Some [\<lparr>out_addr = Some ''B'', out_value = Some v\<rparr>]\<rparr>"

definition fetch_three :: "address \<Rightarrow> fetch_error + transaction list" where
  "fetch_three addr =
     (if addr = ''A'' then Inr [tx_A_to_B 10000000, tx_A_to_B 20000000, tx_A_to_B 30000000]
      else Inr [])"

definition tx_B_C_B :: transaction where
  "tx_B_C_B =
     \<lparr>inputs = Some [input_A],
      out = Some [\<lparr>out_addr = Some ''B'', out_value = Some 10000000\<rparr>,
                  \<lparr>out_addr = Some ''C'', out_value = Some 20000000\<rparr>,
                  \<lparr>out_addr = Some ''B'', out_value = Some 40000000\<rparr>]\<rparr>"

definition fetch_B_C_B :: "address \<Rightarrow> fetch_error + transaction list" where
  "fetch_B_C_B addr = (if addr = ''A'' then Inr [tx_B_C_B] else Inr [])"

text \<open>
  A ledger in which the one transaction from A to B is in the history of both
  addresses, as it is with the real service.
\<close>

definition fetch_shared :: "address \<Rightarrow> fetch_error + transaction list" where
  "fetch_shared addr =
     (if addr = ''A'' \<or> addr = ''B'' then Inr [tx_A_to_B 100000000] else Inr [])"

text \<open>The state after the first round from the seed A with \<open>fetch_shared\<close>.\<close>

definition shared_1 :: crawl_state where
  "shared_1 =
     \<lparr>G = \<lparr>g_nodes = [''A'', ''B''], g_edges = [((''A'', ''B''), 1)]\<rparr>,
      visited = {''A''}, q = [(''B'', 1)],
      edge_w = [((''A'', ''B''), 1)],
      node_amount = [(''A'', 1), (''B'', 1)],
      stdout = [], fetched = [''A'']\<rparr>"

section \<open>Properties of the floats\<close>

text \<open>
  The bit length brackets a positive integer between two powers of two, so the exponent
  found by \<open>float_exp\<close> is not too large; rounding then moves a number by at most the
  fraction \<open>2 ^ - 53\<close> of itself, keeps its sign and keeps every integer below \<open>2 ^ 53\<close>.
\<close>

lemma bit_length_pos: "0 < n \<Longrightarrow> 0 < bit_length n"
proof (induction n rule: bit_length.induct)
  case (1 n)
  have "0 \<le> bit_length (n div 2)"
  proof (cases "n div 2 \<le> 0")
    case True
    then show ?thesis by (simp add: bit_length.simps [of "n div 2"])
  next
    case False
    with 1 show ?thesis by simp
  qed
  with 1(2) show ?case by (simp add: bit_length.simps [of n])
qed

lemma bit_length_bounds:
  "0 < n \<Longrightarrow> 2 ^ nat (bit_length n - 1) \<le> n \<and> n < 2 ^ nat (bit_length n)"
proof (induction n rule: bit_length.induct)
  case (1 n)
  let ?m = "n div 2"
  from 1(2) have bl: "bit_length n = 1 + bit_length ?m"
    by (simp add: bit_length.simps [of n])
  show ?case
  proof (cases "?m \<le> 0")
    case True
    with 1(2) have n1: "n = 1" by linarith
    from True have "bit_length ?m = 0" by (simp add: bit_length.simps [of "n div 2"])
    with bl n1 show ?thesis by simp
  next
    case False
    then have mp: "0 < ?m" by simp
    from 1(1) [OF _ mp] 1(2) have lo: "2 ^ nat (bit_length ?m - 1) \<le> ?m" and hi: "?m < 2 ^ nat (bit_length ?m)"
      by simp_all
    from bit_length_pos [OF mp] have bp: "0 < bit_length ?m" .
    then have e1: "nat (bit_length n - 1) = Suc (nat (bit_length ?m - 1))"
      and e2: "nat (bit_length n) = Suc (nat (bit_length ?m))"
      unfolding bl by (simp_all add: nat_diff_distrib Suc_nat_eq_nat_zadd1)
    have "2 * ?m \<le> n" and "n \<le> 2 * ?m + 1" by linarith+
    with lo hi show ?thesis unfolding e1 e2 by simp
  qed
qed


lemma of_int_pow2: "0 \<le> j \<Longrightarrow> (of_int (2 ^ nat j) :: rat) = 2 powi j"
  by (simp add: power_int_def)

lemma bit_length_bounds_rat:
  assumes "0 < n"
  shows "2 powi (bit_length n - 1) \<le> (of_int n :: rat)" and "(of_int n :: rat) < 2 powi bit_length n"
proof -
  from bit_length_pos [OF assms] have p: "0 \<le> bit_length n - 1" "0 \<le> bit_length n" by simp_all
  from bit_length_bounds [OF assms] have "2 ^ nat (bit_length n - 1) \<le> n" "n < 2 ^ nat (bit_length n)"
    by simp_all
  then have "(of_int (2 ^ nat (bit_length n - 1)) :: rat) \<le> of_int n"
    and "(of_int n :: rat) < of_int (2 ^ nat (bit_length n))"
    by (simp_all only: of_int_le_iff of_int_less_iff)
  then show "2 powi (bit_length n - 1) \<le> (of_int n :: rat)" and "(of_int n :: rat) < 2 powi bit_length n"
    unfolding of_int_pow2 [OF p(1)] of_int_pow2 [OF p(2)] by simp_all
qed

lemma float_exp_lower:
  assumes "x \<noteq> 0"
  shows "2 powi (float_exp x + 52) \<le> \<bar>x\<bar>"
proof -
  obtain p d where q: "quotient_of \<bar>x\<bar> = (p, d)" by (cases "quotient_of \<bar>x\<bar>")
  from quotient_of_denom_pos [OF q] have dp: "0 < d" .
  from quotient_of_div [OF q] have xe: "\<bar>x\<bar> = of_int p / of_int d" .
  from assms have "0 < \<bar>x\<bar>" by simp
  with xe dp have pp: "0 < p" by (simp add: zero_less_divide_iff)
  define k where "k = bit_length p - bit_length d"
  have fe: "float_exp x + 52 = (if 2 powi k \<le> \<bar>x\<bar> then k else k - 1)"
    by (simp add: float_exp_def q k_def)
  have lo: "2 powi (k - 1) \<le> \<bar>x\<bar>"
  proof -
    have a: "2 powi (bit_length p - 1) \<le> (of_int p :: rat)" by (rule bit_length_bounds_rat [OF pp])
    have b: "(of_int d :: rat) < 2 powi bit_length d" by (rule bit_length_bounds_rat [OF dp])
    have dpos: "(0 :: rat) < of_int d" using dp by simp
    have "bit_length p - 1 = (k - 1) + bit_length d" by (simp add: k_def)
    then have "(2::rat) powi (bit_length p - 1) = 2 powi (k - 1) * 2 powi bit_length d"
      by (simp only: power_int_add [of "2::rat", simplified])
    then have "(2::rat) powi (k - 1) = 2 powi (bit_length p - 1) / 2 powi bit_length d"
      by simp
    also have "\<dots> \<le> of_int p / 2 powi bit_length d"
      using a by (simp add: divide_right_mono)
    also have "\<dots> \<le> of_int p / of_int d"
      using b dpos pp by (simp add: frac_le)
    finally show ?thesis by (simp add: xe)
  qed
  show ?thesis unfolding fe using lo by simp
qed

lemma round_half_even_error: "\<bar>of_int (round_half_even y) - y\<bar> \<le> 1 / 2"
proof -
  have "of_int \<lfloor>y\<rfloor> \<le> y" "y < of_int \<lfloor>y\<rfloor> + 1" by linarith+
  then show ?thesis by (auto simp: round_half_even_def Let_def)
qed


lemma to_double_error: "\<bar>to_double x - x\<bar> \<le> \<bar>x\<bar> / 2 ^ 53"
proof (cases "x = 0")
  case True
  then show ?thesis by (simp add: to_double_def)
next
  case False
  define e where "e = float_exp x"
  define u :: rat where "u = 2 powi e"
  have up: "0 < u" by (simp add: u_def)
  have td: "to_double x = of_int (round_half_even (x / u)) * u"
    using False by (simp add: to_double_def e_def u_def)
  have "to_double x - x = (of_int (round_half_even (x / u)) - x / u) * u"
    using up by (simp add: td algebra_simps)
  then have "\<bar>to_double x - x\<bar> = \<bar>of_int (round_half_even (x / u)) - x / u\<bar> * u"
    using up by (simp add: abs_mult)
  also have "\<dots> \<le> 1 / 2 * u"
    using round_half_even_error [of "x / u"] up by (simp add: mult_right_mono)
  finally have a: "\<bar>to_double x - x\<bar> \<le> u / 2" by simp
  have "(2::rat) powi (e + 52) = u * 2 ^ 52"
    by (simp add: u_def power_int_add)
  with float_exp_lower [OF False] have "u * 2 ^ 52 \<le> \<bar>x\<bar>" by (simp add: e_def)
  then have "u / 2 \<le> \<bar>x\<bar> / 2 ^ 53" by simp
  with a show ?thesis by linarith
qed

lemma to_double_pos: "0 < x \<Longrightarrow> 0 < to_double x"
proof -
  assume p: "0 < x"
  have a: "\<bar>to_double x - x\<bar> \<le> x / 2 ^ 53"
    using to_double_error [of x] p by (simp only: abs_of_pos)
  have b: "x / 2 ^ 53 < x" using p by simp
  from a b show ?thesis by linarith
qed


lemma to_double_zero: "to_double 0 = 0"
  by (simp add: to_double_def)



lemma float_of_int_zero: "float_of_int 0 = 0"
  by (simp add: float_of_int_def to_double_zero)

lemma fdiv_zero: "fdiv 0 y = 0"
  by (simp add: fdiv_def to_double_zero)


lemma fadd_error: "\<bar>fadd x y - (x + y)\<bar> \<le> \<bar>x + y\<bar> / 2 ^ 53"
  unfolding fadd_def by (rule to_double_error)

text \<open>
  The operations at the amounts of the examples below, one operation per lemma, each
  computed by the code equations of the definitions.
\<close>

lemma fl_1: "float_of_int 100000000 = 100000000"
  by code_simp

lemma fl_2: "fdiv 100000000 100000000 = 1"
  by code_simp

lemma fl_3: "float_of_int 1 = 1"
  by code_simp

lemma fl_4: "fdiv 1 1 = 1"
  by code_simp

lemma fl_5: "fadd 0 1 = 1"
  by code_simp

lemma fl_6: "float_of_int 50000000 = 50000000"
  by code_simp

lemma fl_7: "fdiv 50000000 100000000 = 1 / 2"
  by code_simp

lemma fl_8: "fdiv (1 / 2) 1 = 1 / 2"
  by code_simp

lemma fl_9: "fadd 0 (1 / 2) = 1 / 2"
  by code_simp

lemma fl_10: "float_of_int 200000000 = 200000000"
  by code_simp

lemma fl_11: "fdiv 200000000 100000000 = 2"
  by code_simp

lemma fl_12: "fdiv 2 1 = 2"
  by code_simp

lemma fl_13: "fadd 0 2 = 2"
  by code_simp

lemma fl_14: "float_of_int 25000000 = 25000000"
  by code_simp

lemma fl_15: "fdiv 25000000 100000000 = 1 / 4"
  by code_simp

lemma fl_16: "fdiv (1 / 4) 1 = 1 / 4"
  by code_simp

lemma fl_17: "fadd 0 (1 / 4) = 1 / 4"
  by code_simp

lemma fl_18: "float_of_int 10000000 = 10000000"
  by code_simp

lemma fl_19: "fdiv 10000000 100000000 = 3602879701896397 / 36028797018963968"
  by code_simp

lemma fl_20: "fdiv (3602879701896397 / 36028797018963968) 1 = 3602879701896397 / 36028797018963968"
  by code_simp

lemma fl_21: "fadd 0 (3602879701896397 / 36028797018963968) = 3602879701896397 / 36028797018963968"
  by code_simp

lemma fl_22: "float_of_int 20000000 = 20000000"
  by code_simp

lemma fl_23: "fdiv 20000000 100000000 = 3602879701896397 / 18014398509481984"
  by code_simp

lemma fl_24: "fdiv (3602879701896397 / 18014398509481984) 1 = 3602879701896397 / 18014398509481984"
  by code_simp

lemma fl_25: "fadd 0 (3602879701896397 / 18014398509481984) = 3602879701896397 / 18014398509481984"
  by code_simp

lemma fl_26: "float_of_int 30000000 = 30000000"
  by code_simp

lemma fl_27: "fdiv 30000000 100000000 = 5404319552844595 / 18014398509481984"
  by code_simp

lemma fl_28: "fdiv (5404319552844595 / 18014398509481984) 1 = 5404319552844595 / 18014398509481984"
  by code_simp

lemma fl_29: "fadd 0 (5404319552844595 / 18014398509481984) = 5404319552844595 / 18014398509481984"
  by code_simp

lemma fl_30: "float_of_int 40000000 = 40000000"
  by code_simp

lemma fl_31: "fdiv 40000000 100000000 = 3602879701896397 / 9007199254740992"
  by code_simp

lemma fl_32: "fdiv (3602879701896397 / 9007199254740992) 1 = 3602879701896397 / 9007199254740992"
  by code_simp

lemma fl_33: "fadd 0 (3602879701896397 / 9007199254740992) = 3602879701896397 / 9007199254740992"
  by code_simp

lemma fl_34: "float_of_int 2 = 2"
  by code_simp

lemma fl_35: "fdiv 2 2 = 1"
  by code_simp

lemma fl_36: "float_of_int 10 = 10"
  by code_simp

lemma fl_37: "fdiv 1 10 = 3602879701896397 / 36028797018963968"
  by code_simp

lemma fl_38: "fadd 1 (1 / 2) = 3 / 2"
  by code_simp

lemma fl_39: "fadd 1 (1 / 4) = 5 / 4"
  by code_simp

lemma fl_40: "fadd (1 / 2) (1 / 4) = 3 / 4"
  by code_simp

lemma fl_41: "fadd 1 1 = 2"
  by code_simp

lemma fl_42: "fadd (3602879701896397 / 36028797018963968) (3602879701896397 / 18014398509481984) = 1351079888211149 / 4503599627370496"
  by code_simp

lemma fl_43: "fadd (1351079888211149 / 4503599627370496) (5404319552844595 / 18014398509481984) = 1351079888211149 / 2251799813685248"
  by code_simp

lemma fl_44: "fadd (5404319552844595 / 18014398509481984) (3602879701896397 / 18014398509481984) = 1 / 2"
  by code_simp

lemma fl_45: "fadd (1 / 2) (3602879701896397 / 36028797018963968) = 5404319552844595 / 9007199254740992"
  by code_simp

lemma fl_46: "fadd (1351079888211149 / 4503599627370496) (3602879701896397 / 9007199254740992) = 6305039478318695 / 9007199254740992"
  by code_simp

lemma fl_47: "fadd (3602879701896397 / 36028797018963968) (3602879701896397 / 9007199254740992) = 1 / 2"
  by code_simp

lemma fl_48: "fadd (1 / 2) (3602879701896397 / 18014398509481984) = 3152519739159347 / 4503599627370496"
  by code_simp

lemma fl_49: "fadd (3602879701896397 / 36028797018963968) (3602879701896397 / 36028797018963968) = 3602879701896397 / 18014398509481984"
  by code_simp

lemma fl_50: "fadd (3602879701896397 / 18014398509481984) (3602879701896397 / 36028797018963968) = 1351079888211149 / 4503599627370496"
  by code_simp

lemma fl_51: "fadd (1351079888211149 / 4503599627370496) (3602879701896397 / 36028797018963968) = 3602879701896397 / 9007199254740992"
  by code_simp

lemma fl_52: "fadd (3602879701896397 / 9007199254740992) (3602879701896397 / 36028797018963968) = 1 / 2"
  by code_simp

lemma fl_53: "fadd (5404319552844595 / 9007199254740992) (3602879701896397 / 36028797018963968) = 3152519739159347 / 4503599627370496"
  by code_simp

lemma fl_54: "fadd (3152519739159347 / 4503599627370496) (3602879701896397 / 36028797018963968) = 7205759403792793 / 9007199254740992"
  by code_simp

lemma fl_55: "fadd (7205759403792793 / 9007199254740992) (3602879701896397 / 36028797018963968) = 2026619832316723 / 2251799813685248"
  by code_simp

lemma fl_56: "fadd (2026619832316723 / 2251799813685248) (3602879701896397 / 36028797018963968) = 9007199254740991 / 9007199254740992"
  by code_simp

lemmas float_evals =
  fl_1 fl_2 fl_3 fl_4 fl_5 fl_6 fl_7 fl_8 fl_9 fl_10 fl_11 fl_12 fl_13 fl_14 fl_15 fl_16
  fl_17 fl_18 fl_19 fl_20 fl_21 fl_22 fl_23 fl_24 fl_25 fl_26 fl_27 fl_28 fl_29 fl_30
  fl_31 fl_32 fl_33 fl_34 fl_35 fl_36 fl_37 fl_38 fl_39 fl_40 fl_41 fl_42 fl_43 fl_44
  fl_45 fl_46 fl_47 fl_48 fl_49 fl_50 fl_51 fl_52 fl_53 fl_54 fl_55 fl_56


section \<open>Properties of the edge extractor\<close>

text \<open>The loops with accumulators are maps and concatenations.\<close>

lemma collect_inputs_acc: "collect_inputs xs acc = acc @ collect_inputs xs []"
proof (induction xs arbitrary: acc)
  case Nil
  show ?case by simp
next
  case (Cons i rest)
  have a: "collect_inputs rest (acc @ [s]) = acc @ s # collect_inputs rest []" for s
    using Cons.IH [of "acc @ [s]"] by simp
  have b: "collect_inputs rest [s] = s # collect_inputs rest []" for s
    using Cons.IH [of "[s]"] by simp
  show ?case
    using Cons.IH [of acc] by (simp add: Let_def a b split: option.split)
qed

lemma collect_outs_acc: "collect_outs xs acc = acc @ collect_outs xs []"
proof (induction xs arbitrary: acc)
  case Nil
  show ?case by simp
next
  case (Cons ou rest)
  have a: "collect_outs rest (acc @ [p]) = acc @ p # collect_outs rest []" for p
    using Cons.IH [of "acc @ [p]"] by simp
  have b: "collect_outs rest [p] = p # collect_outs rest []" for p
    using Cons.IH [of "[p]"] by simp
  show ?case
    using Cons.IH [of acc] by (simp add: Let_def a b split: option.split)
qed

lemma emit_outs_eq:
  "emit_outs in_a denom outs edges =
     edges @ map (\<lambda>(out_a, val). (in_a, out_a, fdiv val (float_of_int (int denom)))) outs"
  by (induction outs arbitrary: edges) auto

lemma emit_inputs_eq:
  "emit_inputs ins denom outs edges =
     edges @ concat (map (\<lambda>in_a. map (\<lambda>(out_a, val). (in_a, out_a, fdiv val (float_of_int (int denom)))) outs) ins)"
  by (induction ins arbitrary: edges) (auto simp: emit_outs_eq)

lemma tx_edges_acc: "tx_edges tx edges = edges @ tx_edges tx []"
  by (simp add: tx_edges_def Let_def emit_inputs_eq)

lemma edges_loop_acc: "edges_loop txs edges = edges @ edges_loop txs []"
proof (induction txs arbitrary: edges)
  case Nil
  show ?case by simp
next
  case (Cons tx txs)
  show ?case
    using Cons.IH [of "tx_edges tx edges"] Cons.IH [of "tx_edges tx []"] tx_edges_acc [of tx edges]
    by simp
qed

lemma address_edges_from_txs_Cons:
  "address_edges_from_txs (tx # txs) = tx_edges tx [] @ address_edges_from_txs txs"
  using edges_loop_acc [of txs "tx_edges tx []"] by (simp add: address_edges_from_txs_def)

lemma address_edges_from_txs_concat:
  "address_edges_from_txs txs = concat (map (\<lambda>tx. tx_edges tx []) txs)"
  by (induction txs) (simp_all add: address_edges_from_txs_Cons, simp add: address_edges_from_txs_def)

lemma collect_inputs_append:
  "collect_inputs (xs @ ys) acc = collect_inputs ys (collect_inputs xs acc)"
  by (induction xs arbitrary: acc) (simp_all add: Let_def)

lemma collect_outs_append:
  "collect_outs (xs @ ys) acc = collect_outs ys (collect_outs xs acc)"
  by (induction xs arbitrary: acc) (simp_all add: Let_def)

lemma address_edges_from_txs_append:
  "address_edges_from_txs (txs1 @ txs2) = address_edges_from_txs txs1 @ address_edges_from_txs txs2"
  by (simp add: address_edges_from_txs_concat)

lemma collect_outs_positive: "p \<in> set (collect_outs xs acc) \<Longrightarrow> p \<in> set acc \<or> 0 < snd p"
proof (induction xs arbitrary: acc)
  case Nil
  then show ?case by simp
next
  case (Cons ou rest)
  from Cons.prems show ?case
    by (auto simp: Let_def split: option.splits if_splits dest!: Cons.IH)
qed

lemma tx_outs_positive: "p \<in> set (tx_outs tx) \<Longrightarrow> 0 < snd p"
  using collect_outs_positive [of p _ "[]"] by (simp add: tx_outs_def)

lemma tx_edges_empty: "tx_inputs tx = [] \<or> tx_outs tx = [] \<Longrightarrow> tx_edges tx [] = []"
  by (auto simp: tx_edges_def Let_def)







lemma collect_inputs_skip:
  assumes "prev_out i = None \<or> prev_out i = Some \<lparr>po_addr = None\<rparr>"
  shows "collect_inputs (is1 @ i # is2) acc = collect_inputs (is1 @ is2) acc"
  using assms by (auto simp: collect_inputs_append Let_def)

lemma collect_outs_skip:
  assumes "out_value ou = None \<or> out_value ou = Some 0"
  shows "collect_outs (os1 @ ou # os2) acc = collect_outs (os1 @ os2) acc"
  using assms by (auto simp: collect_outs_append Let_def float_of_int_zero fdiv_zero split: option.split)

lemma tx_edges_cong:
  "tx_inputs tx = tx_inputs tx' \<Longrightarrow> tx_outs tx = tx_outs tx' \<Longrightarrow> tx_edges tx es = tx_edges tx' es"
  by (simp add: tx_edges_def)

lemma address_edges_from_txs_cong:
  assumes "tx_inputs tx = tx_inputs tx'" and "tx_outs tx = tx_outs tx'"
  shows "address_edges_from_txs (txs1 @ tx # txs2) = address_edges_from_txs (txs1 @ tx' # txs2)"
  using tx_edges_cong [OF assms, of "[]"] by (simp add: address_edges_from_txs_concat)

text \<open>
  Claim C7. A transaction without resolvable input addresses or without resolvable
  outputs yields no edge, alone or inside a batch. An output of value zero is left out
  before the attribution: removing it changes neither the resolvable outputs nor the
  edges, and every resolvable output has a positive value.
\<close>

theorem no_edges_without_endpoints:
  "(tx_inputs tx = [] \<or> tx_outs tx = [] \<longrightarrow>
      address_edges_from_txs [tx] = [] \<and>
      address_edges_from_txs (txs1 @ tx # txs2) = address_edges_from_txs (txs1 @ txs2)) \<and>
   (out_value ou = Some 0 \<longrightarrow>
      tx_outs (tx\<lparr>out := Some (os1 @ ou # os2)\<rparr>) = tx_outs (tx\<lparr>out := Some (os1 @ os2)\<rparr>) \<and>
      address_edges_from_txs (txs1 @ tx\<lparr>out := Some (os1 @ ou # os2)\<rparr> # txs2) =
        address_edges_from_txs (txs1 @ tx\<lparr>out := Some (os1 @ os2)\<rparr> # txs2)) \<and>
   (\<forall>p \<in> set (tx_outs tx). 0 < snd p)"
proof (intro conjI impI ballI)
  assume "tx_inputs tx = [] \<or> tx_outs tx = []"
  then have e: "tx_edges tx [] = []" by (rule tx_edges_empty)
  then show "address_edges_from_txs [tx] = []"
    by (simp add: address_edges_from_txs_concat)
  from e show "address_edges_from_txs (txs1 @ tx # txs2) = address_edges_from_txs (txs1 @ txs2)"
    by (simp add: address_edges_from_txs_concat)
next
  assume z: "out_value ou = Some 0"
  then show o: "tx_outs (tx\<lparr>out := Some (os1 @ ou # os2)\<rparr>) = tx_outs (tx\<lparr>out := Some (os1 @ os2)\<rparr>)"
    by (simp add: tx_outs_def collect_outs_skip)
  have "tx_inputs (tx\<lparr>out := Some (os1 @ ou # os2)\<rparr>) = tx_inputs (tx\<lparr>out := Some (os1 @ os2)\<rparr>)"
    by (simp add: tx_inputs_def)
  then show "address_edges_from_txs (txs1 @ tx\<lparr>out := Some (os1 @ ou # os2)\<rparr> # txs2) =
        address_edges_from_txs (txs1 @ tx\<lparr>out := Some (os1 @ os2)\<rparr> # txs2)"
    using o by (rule address_edges_from_txs_cong)
next
  fix p assume "p \<in> set (tx_outs tx)"
  then show "0 < snd p" by (rule tx_outs_positive)
qed

text \<open>
  Claim C10. Missing optional fields do not stop the extraction, which is a total
  function: an input without a previous-output object, or whose previous-output object
  has no address, is passed over, and so is an output without an address or without a
  value; a transaction without the key \<^verbatim>\<open>inputs\<close> or without the key \<^verbatim>\<open>out\<close> yields
  no edge. The result is the one for the batch without the passed-over parts.
\<close>

theorem missing_fields_are_skipped:
  assumes "prev_out i = None \<or> prev_out i = Some \<lparr>po_addr = None\<rparr>"
    and "out_addr ou = None \<or> out_value ou = None"
  shows "tx_inputs \<lparr>inputs = Some (is1 @ i # is2), out = os\<rparr> =
           tx_inputs \<lparr>inputs = Some (is1 @ is2), out = os\<rparr> \<and>
         tx_outs \<lparr>inputs = ins, out = Some (os1 @ ou # os2)\<rparr> =
           tx_outs \<lparr>inputs = ins, out = Some (os1 @ os2)\<rparr> \<and>
         address_edges_from_txs
           (txs1 @ \<lparr>inputs = Some (is1 @ i # is2), out = Some (os1 @ ou # os2)\<rparr> # txs2) =
         address_edges_from_txs
           (txs1 @ \<lparr>inputs = Some (is1 @ is2), out = Some (os1 @ os2)\<rparr> # txs2) \<and>
         address_edges_from_txs (txs1 @ \<lparr>inputs = None, out = os\<rparr> # txs2) =
           address_edges_from_txs (txs1 @ txs2) \<and>
         address_edges_from_txs (txs1 @ \<lparr>inputs = ins, out = None\<rparr> # txs2) =
           address_edges_from_txs (txs1 @ txs2)"
proof -
  have a: "tx_inputs \<lparr>inputs = Some (is1 @ i # is2), out = os'\<rparr> =
             tx_inputs \<lparr>inputs = Some (is1 @ is2), out = os''\<rparr>" for os' os''
    using assms(1) by (simp add: tx_inputs_def collect_inputs_skip)
  have "collect_outs (os1 @ ou # os2) [] = collect_outs (os1 @ os2) []"
    using assms(2)
    by (auto simp: collect_outs_append Let_def float_of_int_zero fdiv_zero split: option.split)
  then have b: "tx_outs \<lparr>inputs = ins', out = Some (os1 @ ou # os2)\<rparr> =
             tx_outs \<lparr>inputs = ins'', out = Some (os1 @ os2)\<rparr>" for ins' ins''
    by (simp add: tx_outs_def)
  have c: "address_edges_from_txs
           (txs1 @ \<lparr>inputs = Some (is1 @ i # is2), out = Some (os1 @ ou # os2)\<rparr> # txs2) =
         address_edges_from_txs
           (txs1 @ \<lparr>inputs = Some (is1 @ is2), out = Some (os1 @ os2)\<rparr> # txs2)"
    using a b by (rule address_edges_from_txs_cong)
  have "tx_edges \<lparr>inputs = None, out = os\<rparr> [] = []"
    by (rule tx_edges_empty) (simp add: tx_inputs_def)
  then have d: "address_edges_from_txs (txs1 @ \<lparr>inputs = None, out = os\<rparr> # txs2) =
           address_edges_from_txs (txs1 @ txs2)"
    by (simp add: address_edges_from_txs_concat)
  have "tx_edges \<lparr>inputs = ins, out = None\<rparr> [] = []"
    by (rule tx_edges_empty) (simp add: tx_outs_def)
  then have e: "address_edges_from_txs (txs1 @ \<lparr>inputs = ins, out = None\<rparr> # txs2) =
           address_edges_from_txs (txs1 @ txs2)"
    by (simp add: address_edges_from_txs_concat)
  from a b c d e show ?thesis by blast
qed


theorem no_edges_without_endpoints_witness:
  "(tx_inputs tx_no_inputs = [] \<or> tx_outs tx_no_inputs = []) \<and>
   address_edges_from_txs [tx_no_inputs] = [] \<and>
   out_value zero_output = Some 0 \<and>
   tx_outs (tx_two_in_one_out\<lparr>out := Some [zero_output, \<lparr>out_addr = Some ''B'', out_value = Some 200000000\<rparr>]\<rparr>) =
     [(''B'', 2)] \<and>
   address_edges_from_txs
     [tx_two_in_one_out\<lparr>out := Some [zero_output, \<lparr>out_addr = Some ''B'', out_value = Some 200000000\<rparr>]\<rparr>] =
     [(''A'', ''B'', 1), (''D'', ''B'', 1)]"
proof -
  have h1: "tx_inputs tx_no_inputs = [] \<or> tx_outs tx_no_inputs = []"
    by (simp add: tx_inputs_def tx_no_inputs_def)
  have h2: "out_value zero_output = Some 0"
    by (simp add: zero_output_def)
  have r: "tx_outs (tx_two_in_one_out\<lparr>out := Some [\<lparr>out_addr = Some ''B'', out_value = Some 200000000\<rparr>]\<rparr>) = [(''B'', 2)]"
    by (simp add: tx_outs_def tx_two_in_one_out_def float_evals)
  have r': "address_edges_from_txs [tx_two_in_one_out\<lparr>out := Some [\<lparr>out_addr = Some ''B'', out_value = Some 200000000\<rparr>]\<rparr>] =
      [(''A'', ''B'', 1), (''D'', ''B'', 1)]"
    by (simp add: address_edges_from_txs_def tx_edges_def tx_inputs_def tx_outs_def
        tx_two_in_one_out_def float_evals)
  from no_edges_without_endpoints [of tx_no_inputs "[]" "[]" zero_output, THEN conjunct1] h1
  have c1: "address_edges_from_txs [tx_no_inputs] = []" by simp
  from no_edges_without_endpoints [of tx_two_in_one_out "[]" "[]" zero_output "[]"
      "[\<lparr>out_addr = Some ''B'', out_value = Some 200000000\<rparr>]", THEN conjunct2, THEN conjunct1] h2 r r'
  have c2: "tx_outs (tx_two_in_one_out\<lparr>out := Some [zero_output, \<lparr>out_addr = Some ''B'', out_value = Some 200000000\<rparr>]\<rparr>) =
     [(''B'', 2)] \<and>
   address_edges_from_txs
     [tx_two_in_one_out\<lparr>out := Some [zero_output, \<lparr>out_addr = Some ''B'', out_value = Some 200000000\<rparr>]\<rparr>] =
     [(''A'', ''B'', 1), (''D'', ''B'', 1)]" by simp
  from h1 h2 c1 c2 show ?thesis by blast
qed

theorem missing_fields_are_skipped_witness:
  "(prev_out input_without_prev_out = None \<or>
      prev_out input_without_prev_out = Some \<lparr>po_addr = None\<rparr>) \<and>
   (out_addr output_without_value = None \<or> out_value output_without_value = None) \<and>
   address_edges_from_txs
     [\<lparr>inputs = Some [\<lparr>prev_out = Some \<lparr>po_addr = Some ''A''\<rparr>\<rparr>, input_without_prev_out],
       out = Some [output_without_value, \<lparr>out_addr = Some ''B'', out_value = Some 100000000\<rparr>]\<rparr>] =
     [(''A'', ''B'', 1)]"
proof -
  have h1: "prev_out input_without_prev_out = None \<or>
      prev_out input_without_prev_out = Some \<lparr>po_addr = None\<rparr>"
    by (simp add: input_without_prev_out_def)
  have h2: "out_addr output_without_value = None \<or> out_value output_without_value = None"
    by (simp add: output_without_value_def)
  have r: "address_edges_from_txs
     [\<lparr>inputs = Some [\<lparr>prev_out = Some \<lparr>po_addr = Some ''A''\<rparr>\<rparr>],
       out = Some [\<lparr>out_addr = Some ''B'', out_value = Some 100000000\<rparr>]\<rparr>] = [(''A'', ''B'', 1)]"
    by (simp add: address_edges_from_txs_def tx_edges_def tx_inputs_def tx_outs_def float_evals)
  from missing_fields_are_skipped [OF h1 h2, of "[\<lparr>prev_out = Some \<lparr>po_addr = Some ''A''\<rparr>\<rparr>]" "[]" _ _
      "[]" "[\<lparr>out_addr = Some ''B'', out_value = Some 100000000\<rparr>]" "[]" "[]"] r
  have "address_edges_from_txs
     [\<lparr>inputs = Some [\<lparr>prev_out = Some \<lparr>po_addr = Some ''A''\<rparr>\<rparr>, input_without_prev_out],
       out = Some [output_without_value, \<lparr>out_addr = Some ''B'', out_value = Some 100000000\<rparr>]\<rparr>] =
     [(''A'', ''B'', 1)]" by simp
  with h1 h2 show ?thesis by blast
qed

section \<open>Properties of the crawler\<close>

lemma dict_get0_dd_add:
  "dict_get0 (dd_add k w d) k' = (if k' = k then fadd (dict_get0 d k') w else dict_get0 d k')"
  by (induction d) (auto simp: dict_get0_def)

lemma pair_weights_Nil: "pair_weights p [] = []"
  by (simp add: pair_weights_def edge_weights_def)

lemma pair_weights_Cons:
  "pair_weights p ((u, v, w) # es) = (if (u, v) = p then [w] else []) @ pair_weights p es"
  by (simp add: pair_weights_def edge_weights_def)

lemma pair_weights_append: "pair_weights p (es @ es') = pair_weights p es @ pair_weights p es'"
  by (simp add: pair_weights_def edge_weights_def)

lemma node_weights_Nil: "node_weights a [] = []"
  by (simp add: node_weights_def)

lemma node_weights_Cons:
  "node_weights a ((u, v, w) # es) =
     (if u = a then [w] else []) @ (if v = a then [w] else []) @ node_weights a es"
  by (simp add: node_weights_def)

lemma node_weights_append: "node_weights a (es @ es') = node_weights a es @ node_weights a es'"
  by (simp add: node_weights_def)

lemma float_sum_append: "float_sum (ws @ ws') = foldl fadd (float_sum ws) ws'"
  by (simp add: float_sum_def)

lemma accumulate_edge_w:
  "dict_get0 (fst (accumulate cfg depth es (ew, na, neigh))) p =
     foldl fadd (dict_get0 ew p) (pair_weights p es)"
proof (induction es arbitrary: ew na neigh)
  case Nil
  show ?case by (simp add: pair_weights_Nil)
next
  case (Cons e es)
  obtain u v w where e: "e = (u, v, w)" by (cases e)
  show ?case
    unfolding e by (simp add: Cons.IH dict_get0_dd_add pair_weights_Cons)
qed

lemma accumulate_node_amount:
  "dict_get0 (fst (snd (accumulate cfg depth es (ew, na, neigh)))) a =
     foldl fadd (dict_get0 na a) (node_weights a es)"
proof (induction es arbitrary: ew na neigh)
  case Nil
  show ?case by (simp add: node_weights_Nil)
next
  case (Cons e es)
  obtain u v w where e: "e = (u, v, w)" by (cases e)
  show ?case
    unfolding e by (simp add: Cons.IH dict_get0_dd_add node_weights_Cons)
qed

lemma crawl_iter_invariant:
  assumes "P s"
    and "\<And>s. P s \<Longrightarrow> loop_cond cfg s \<Longrightarrow> P (crawl_step cfg fetch hash s)"
  shows "P (crawl_iter n cfg fetch hash s)"
  using assms(1)
proof (induction n arbitrary: s)
  case 0
  then show ?case by simp
next
  case (Suc n)
  show ?case
  proof (cases "loop_cond cfg s")
    case True
    from assms(2) [OF Suc.prems True] have "P (crawl_step cfg fetch hash s)" .
    from Suc.IH [OF this] True show ?thesis by simp
  next
    case False
    with Suc.prems show ?thesis by simp
  qed
qed

lemma crawl_step_empty: "q s = [] \<Longrightarrow> crawl_step cfg fetch hash s = s"
  by (simp add: crawl_step_def)

lemma crawl_step_skip:
  "q s = (addr, depth) # rest \<Longrightarrow> addr \<in> visited s \<Longrightarrow>
   crawl_step cfg fetch hash s = s\<lparr>q := rest\<rparr>"
  by (simp add: crawl_step_def)

lemma crawl_step_failed:
  "q s = (addr, depth) # rest \<Longrightarrow> addr \<notin> visited s \<Longrightarrow> fetch addr = Inl e \<Longrightarrow>
   crawl_step cfg fetch hash s =
     s\<lparr>q := rest, visited := insert addr (visited s), G := add_node (G s) addr,
       fetched := fetched s @ [addr], stdout := stdout s @ [warn_line addr e]\<rparr>"
  by (simp add: crawl_step_def)

lemma crawl_step_fetched:
  "q s = (addr, depth) # rest \<Longrightarrow> addr \<notin> visited s \<Longrightarrow> fetch addr = Inr txs \<Longrightarrow>
   accumulate cfg depth (address_edges_from_txs txs) (edge_w s, node_amount s, []) = (ew, na, neigh) \<Longrightarrow>
   crawl_step cfg fetch hash s =
     s\<lparr>q := enqueue cfg (insert addr (visited s)) (write_edges ew (add_node (G s) addr)) depth
              (set_iter hash neigh) rest,
       visited := insert addr (visited s), G := write_edges ew (add_node (G s) addr),
       fetched := fetched s @ [addr], edge_w := ew, node_amount := na\<rparr>"
  by (simp add: crawl_step_def Let_def)

lemma crawl_step_cases [case_names empty skip failed fetched]:
  obtains
    "q s = []" "crawl_step cfg fetch hash s = s"
  | addr depth rest where "q s = (addr, depth) # rest" "addr \<in> visited s"
      "crawl_step cfg fetch hash s = s\<lparr>q := rest\<rparr>"
  | addr depth rest e where "q s = (addr, depth) # rest" "addr \<notin> visited s" "fetch addr = Inl e"
      "crawl_step cfg fetch hash s =
         s\<lparr>q := rest, visited := insert addr (visited s), G := add_node (G s) addr,
           fetched := fetched s @ [addr], stdout := stdout s @ [warn_line addr e]\<rparr>"
  | addr depth rest txs ew na neigh where "q s = (addr, depth) # rest" "addr \<notin> visited s"
      "fetch addr = Inr txs"
      "accumulate cfg depth (address_edges_from_txs txs) (edge_w s, node_amount s, []) = (ew, na, neigh)"
      "crawl_step cfg fetch hash s =
         s\<lparr>q := enqueue cfg (insert addr (visited s)) (write_edges ew (add_node (G s) addr)) depth
                  (set_iter hash neigh) rest,
           visited := insert addr (visited s), G := write_edges ew (add_node (G s) addr),
           fetched := fetched s @ [addr], edge_w := ew, node_amount := na\<rparr>"
proof (cases "q s")
  case Nil
  with that(1) crawl_step_empty show ?thesis by blast
next
  case (Cons x rest)
  obtain addr depth where x: "x = (addr, depth)" by (cases x)
  have qs: "q s = (addr, depth) # rest" using Cons x by simp
  show ?thesis
  proof (cases "addr \<in> visited s")
    case True
    from that(2) [OF qs True] crawl_step_skip [OF qs True] show ?thesis by blast
  next
    case False
    show ?thesis
    proof (cases "fetch addr")
      case (Inl e)
      from that(3) [OF qs False Inl] crawl_step_failed [where fetch = fetch, OF qs False Inl] show ?thesis by blast
    next
      case (Inr txs)
      obtain ew na neigh where
        a: "accumulate cfg depth (address_edges_from_txs txs) (edge_w s, node_amount s, []) = (ew, na, neigh)"
        by (cases "accumulate cfg depth (address_edges_from_txs txs) (edge_w s, node_amount s, [])")
      from that(4) [OF qs False Inr a] crawl_step_fetched [where fetch = fetch, OF qs False Inr a] show ?thesis by blast
    qed
  qed
qed

lemma attributed_init: "attributed fetch (init_state seed) = []"
  by (simp add: attributed_def init_state_def)

lemma float_sum_Nil: "float_sum [] = 0"
  by (simp add: float_sum_def)

lemma edge_w_fetched_step:
  assumes "q s = (addr, depth) # rest" and "addr \<notin> visited s" and "fetch addr = Inr txs"
  shows "fetched (crawl_step cfg fetch hash s) = fetched s @ [addr] \<and>
         dict_get0 (edge_w (crawl_step cfg fetch hash s)) p =
           foldl fadd (dict_get0 (edge_w s) p) (pair_weights p (address_edges_from_txs txs)) \<and>
         dict_get0 (node_amount (crawl_step cfg fetch hash s)) a =
           foldl fadd (dict_get0 (node_amount s) a) (node_weights a (address_edges_from_txs txs))"
proof -
  obtain ew na neigh where
    a: "accumulate cfg depth (address_edges_from_txs txs) (edge_w s, node_amount s, []) = (ew, na, neigh)"
    by (cases "accumulate cfg depth (address_edges_from_txs txs) (edge_w s, node_amount s, [])")
  have e: "dict_get0 ew p = foldl fadd (dict_get0 (edge_w s) p) (pair_weights p (address_edges_from_txs txs))"
    using accumulate_edge_w [of cfg depth "address_edges_from_txs txs" "edge_w s" "node_amount s" "[]" p]
    by (simp add: a)
  have n: "dict_get0 na a = foldl fadd (dict_get0 (node_amount s) a) (node_weights a (address_edges_from_txs txs))"
    using accumulate_node_amount [of cfg depth "address_edges_from_txs txs" "edge_w s" "node_amount s" "[]" a]
    by (simp add: a)
  from crawl_step_fetched [where fetch = fetch, OF assms a] e n show ?thesis by simp
qed

lemma sums_step:
  assumes "dict_get0 (edge_w s) p = float_sum (pair_weights p (attributed fetch s)) \<and>
           dict_get0 (node_amount s) a = float_sum (node_weights a (attributed fetch s))"
  shows "dict_get0 (edge_w (crawl_step cfg fetch hash s)) p =
           float_sum (pair_weights p (attributed fetch (crawl_step cfg fetch hash s))) \<and>
         dict_get0 (node_amount (crawl_step cfg fetch hash s)) a =
           float_sum (node_weights a (attributed fetch (crawl_step cfg fetch hash s)))"
proof (cases s rule: crawl_step_cases [where cfg = cfg and fetch = fetch and hash = hash])
  case empty
  with assms show ?thesis by simp
next
  case (skip addr depth rest)
  with assms show ?thesis by (simp add: attributed_def)
next
  case (failed addr depth rest e)
  with assms show ?thesis by (simp add: attributed_def batch_edges_def)
next
  case (fetched addr depth rest txs ew na neigh)
  from edge_w_fetched_step [where fetch = fetch, OF fetched(1-3), of cfg hash p a] assms fetched(3)
  show ?thesis
    by (simp add: attributed_def batch_edges_def pair_weights_append node_weights_append
        float_sum_append)
qed

lemma sums_invariant:
  "dict_get0 (edge_w (crawl_iter n cfg fetch hash (init_state seed))) p =
     float_sum (pair_weights p (attributed fetch (crawl_iter n cfg fetch hash (init_state seed)))) \<and>
   dict_get0 (node_amount (crawl_iter n cfg fetch hash (init_state seed))) a =
     float_sum (node_weights a (attributed fetch (crawl_iter n cfg fetch hash (init_state seed))))"
proof (rule crawl_iter_invariant)
  show "dict_get0 (edge_w (init_state seed)) p =
          float_sum (pair_weights p (attributed fetch (init_state seed))) \<and>
        dict_get0 (node_amount (init_state seed)) a =
          float_sum (node_weights a (attributed fetch (init_state seed)))"
    by (simp add: attributed_init pair_weights_Nil node_weights_Nil float_sum_Nil)
       (simp add: init_state_def dict_get0_def)
next
  fix s :: crawl_state
  assume "dict_get0 (edge_w s) p = float_sum (pair_weights p (attributed fetch s)) \<and>
           dict_get0 (node_amount s) a = float_sum (node_weights a (attributed fetch s))"
  then show "dict_get0 (edge_w (crawl_step cfg fetch hash s)) p =
           float_sum (pair_weights p (attributed fetch (crawl_step cfg fetch hash s))) \<and>
         dict_get0 (node_amount (crawl_step cfg fetch hash s)) a =
           float_sum (node_weights a (attributed fetch (crawl_step cfg fetch hash s)))"
    by (rule sums_step)
qed

text \<open>
  Claim C3, as amended. At every point of a crawl, the weight accumulated for an ordered
  pair of addresses is the floating-point sum of the weights of all edge triples
  attributed to that pair so far, over all transactions of all batches fetched, added to
  0.0 one after the other in the order of attribution. A round that fetches a batch
  records the address as fetched and goes on from the weight that the pair had before the
  round, adding the weights of the batch for that pair in their order: the table is keyed
  for the whole crawl and is not reset between batches.
\<close>

theorem edge_weight_is_float_sum_of_attributions:
  "dict_get0 (edge_w (crawl_iter n cfg fetch hash (init_state seed))) p =
     float_sum (pair_weights p (attributed fetch (crawl_iter n cfg fetch hash (init_state seed)))) \<and>
   (q s = (addr, depth) # rest \<and> addr \<notin> visited s \<and> fetch addr = Inr txs \<longrightarrow>
      fetched (crawl_step cfg fetch hash s) = fetched s @ [addr] \<and>
      dict_get0 (edge_w (crawl_step cfg fetch hash s)) p =
        foldl fadd (dict_get0 (edge_w s) p) (pair_weights p (address_edges_from_txs txs)))"
proof (intro conjI impI)
  show "dict_get0 (edge_w (crawl_iter n cfg fetch hash (init_state seed))) p =
     float_sum (pair_weights p (attributed fetch (crawl_iter n cfg fetch hash (init_state seed))))"
    using sums_invariant by blast
next
  assume h: "q s = (addr, depth) # rest \<and> addr \<notin> visited s \<and> fetch addr = Inr txs"
  then have h1: "q s = (addr, depth) # rest" and h2: "addr \<notin> visited s" and h3: "fetch addr = Inr txs"
    by simp_all
  from edge_w_fetched_step [where fetch = fetch, OF h1 h2 h3]
  show "fetched (crawl_step cfg fetch hash s) = fetched s @ [addr]"
    and "dict_get0 (edge_w (crawl_step cfg fetch hash s)) p =
        foldl fadd (dict_get0 (edge_w s) p) (pair_weights p (address_edges_from_txs txs))"
    by blast+
qed

lemma write_edges_record:
  "write_edges (((u, v), w) # rest) \<lparr>g_nodes = ns, g_edges = es\<rparr> =
     write_edges rest \<lparr>g_nodes = set_add v (set_add u ns), g_edges = dict_set (u, v) w es\<rparr>"
  by (simp add: has_node_def add_node_def add_edge_def set_add_def Let_def)

lemma add_node_record:
  "add_node \<lparr>g_nodes = ns, g_edges = es\<rparr> n = \<lparr>g_nodes = set_add n ns, g_edges = es\<rparr>"
  by (simp add: add_node_def set_add_def)

lemma edges_scenario:
  "address_edges_from_txs [tx_one_in_two_out] = [(''A'', ''B'', 1), (''A'', ''C'', 1 / 2)]"
  by (simp add: address_edges_from_txs_def tx_edges_def tx_inputs_def tx_outs_def
      tx_one_in_two_out_def float_evals)

lemma edges_B_to_C: "address_edges_from_txs [tx_B_to_C] = [(''B'', ''C'', 1 / 4)]"
  by (simp add: address_edges_from_txs_def tx_edges_def tx_inputs_def tx_outs_def tx_B_to_C_def
      float_evals)

lemma edges_none: "address_edges_from_txs [] = []"
  by (simp add: address_edges_from_txs_def)

lemma step_scenario:
  "crawl_step cfg fetch_scenario hash (init_state ''A'') =
     \<lparr>G = \<lparr>g_nodes = [''A'', ''B'', ''C''],
            g_edges = [((''A'', ''B''), 1), ((''A'', ''C''), 1 / 2)]\<rparr>,
      visited = {''A''},
      q = enqueue cfg {''A''}
            \<lparr>g_nodes = [''A'', ''B'', ''C''],
              g_edges = [((''A'', ''B''), 1), ((''A'', ''C''), 1 / 2)]\<rparr> 0
            (set_iter hash (if 0 < MAX_DEPTH cfg then [''B'', ''C''] else [])) [],
      edge_w = [((''A'', ''B''), 1), ((''A'', ''C''), 1 / 2)],
      node_amount = [(''A'', 3 / 2), (''B'', 1), (''C'', 1 / 2)],
      stdout = [], fetched = [''A'']\<rparr>"
proof -
  have a: "q (init_state ''A'') = (''A'', 0) # []" by (simp add: init_state_def)
  have b: "''A'' \<notin> visited (init_state ''A'')" by (simp add: init_state_def)
  have c: "fetch_scenario ''A'' = Inr [tx_one_in_two_out]" by (simp add: fetch_scenario_def)
  have d: "accumulate cfg 0 (address_edges_from_txs [tx_one_in_two_out])
             (edge_w (init_state ''A''), node_amount (init_state ''A''), []) =
           ([((''A'', ''B''), 1), ((''A'', ''C''), 1 / 2)],
            [(''A'', 3 / 2), (''B'', 1), (''C'', 1 / 2)],
            if 0 < MAX_DEPTH cfg then [''B'', ''C''] else [])"
    by (simp add: edges_scenario init_state_def set_add_def float_evals)
  have g: "write_edges [((''A'', ''B''), 1), ((''A'', ''C''), 1 / 2)]
             (add_node (G (init_state ''A'')) ''A'') =
           \<lparr>g_nodes = [''A'', ''B'', ''C''],
             g_edges = [((''A'', ''B''), 1), ((''A'', ''C''), 1 / 2)]\<rparr>"
    by (simp add: init_state_def add_node_record write_edges_record set_add_def
        del: write_edges.simps(2))
  show ?thesis
    unfolding crawl_step_fetched [where fetch = fetch_scenario, OF a b c d] g
    by (simp add: init_state_def)
qed

lemma enqueue_eq:
  "enqueue cfg vis g depth nbs queue =
     queue @ map (\<lambda>nb. (nb, depth + 1)) (filter (\<lambda>nb. nb \<notin> vis \<and> len_G g < MAX_NODES cfg) nbs)"
  by (induction nbs arbitrary: queue) simp_all

lemma accumulate_neigh_at_max_depth:
  "\<not> depth < MAX_DEPTH cfg \<Longrightarrow>
   snd (snd (accumulate cfg depth es (ew, na, neigh))) = neigh"
proof (induction es arbitrary: ew na neigh)
  case Nil
  show ?case by simp
next
  case (Cons e es)
  obtain u v w where e: "e = (u, v, w)" by (cases e)
  from Cons show ?case unfolding e by simp
qed

lemma set_iter_set: "set (set_iter hash xs) = set xs"
  by (simp add: set_iter_def)

lemma set_iter_Nil: "set_iter hash [] = []"
  by (simp add: set_iter_def)

lemma crawl_step_queue:
  assumes "q s = (addr, depth) # rest"
  shows "\<exists>new. q (crawl_step cfg fetch hash s) = rest @ new \<and>
           (\<forall>(a, d) \<in> set new. a \<notin> visited (crawl_step cfg fetch hash s) \<and>
              d = depth + 1 \<and> depth < MAX_DEPTH cfg \<and>
              len_G (G (crawl_step cfg fetch hash s)) < MAX_NODES cfg)"
proof (cases s rule: crawl_step_cases [where cfg = cfg and fetch = fetch and hash = hash])
  case empty
  with assms show ?thesis by simp
next
  case (skip addr' depth' rest')
  with assms have "q (crawl_step cfg fetch hash s) = rest @ []" by simp
  then show ?thesis by (intro exI [of _ "[]"]) simp
next
  case (failed addr' depth' rest' e)
  with assms have "q (crawl_step cfg fetch hash s) = rest @ []" by simp
  then show ?thesis by (intro exI [of _ "[]"]) simp
next
  case (fetched addr' depth' rest' txs ew na neigh)
  from assms fetched(1) have eq: "addr' = addr" "depth' = depth" "rest' = rest" by simp_all
  let ?g = "write_edges ew (add_node (G s) addr)"
  let ?new = "map (\<lambda>nb. (nb, depth + 1))
      (filter (\<lambda>nb. nb \<notin> insert addr (visited s) \<and> len_G ?g < MAX_NODES cfg) (set_iter hash neigh))"
  have qn: "q (crawl_step cfg fetch hash s) = rest @ ?new"
    using fetched(5) by (simp add: eq enqueue_eq)
  have d: "depth < MAX_DEPTH cfg" if "x \<in> set neigh" for x
  proof (rule ccontr)
    assume "\<not> depth < MAX_DEPTH cfg"
    from accumulate_neigh_at_max_depth [OF this, of "address_edges_from_txs txs" "edge_w s" "node_amount s" "[]"]
    have "neigh = []" using fetched(4) by (simp add: eq)
    with that show False by simp
  qed
  have "\<forall>(a, d) \<in> set ?new. a \<notin> visited (crawl_step cfg fetch hash s) \<and>
              d = depth + 1 \<and> depth < MAX_DEPTH cfg \<and>
              len_G (G (crawl_step cfg fetch hash s)) < MAX_NODES cfg"
    using fetched(5) d by (auto simp: eq set_iter_set)
  with qn show ?thesis by blast
qed

lemma fetched_step:
  assumes "distinct (fetched s) \<and> set (fetched s) = visited s"
  shows "distinct (fetched (crawl_step cfg fetch hash s)) \<and>
         set (fetched (crawl_step cfg fetch hash s)) = visited (crawl_step cfg fetch hash s)"
proof (cases s rule: crawl_step_cases [where cfg = cfg and fetch = fetch and hash = hash])
  case empty
  with assms show ?thesis by simp
next
  case (skip addr depth rest)
  with assms show ?thesis by simp
next
  case (failed addr depth rest e)
  with assms show ?thesis by auto
next
  case (fetched addr depth rest txs ew na neigh)
  with assms show ?thesis by auto
qed

lemma fetched_invariant:
  "distinct (fetched (crawl_iter n cfg fetch hash (init_state seed))) \<and>
   set (fetched (crawl_iter n cfg fetch hash (init_state seed))) =
     visited (crawl_iter n cfg fetch hash (init_state seed))"
proof (rule crawl_iter_invariant)
  show "distinct (fetched (init_state seed)) \<and>
        set (fetched (init_state seed)) = visited (init_state seed)"
    by (simp add: init_state_def)
next
  fix s :: crawl_state
  assume "distinct (fetched s) \<and> set (fetched s) = visited s"
  then show "distinct (fetched (crawl_step cfg fetch hash s)) \<and>
         set (fetched (crawl_step cfg fetch hash s)) = visited (crawl_step cfg fetch hash s)"
    by (rule fetched_step)
qed

text \<open>
  Claim C5. No address is fetched twice in a crawl: the addresses fetched are pairwise
  distinct and are exactly the visited ones. A round whose dequeued address is already
  visited only removes it from the frontier, without a fetch, and no address that a
  round appends to the frontier is visited at that moment.
\<close>

theorem no_address_fetched_twice:
  "distinct (fetched (crawl_iter n cfg fetch hash (init_state seed))) \<and>
   set (fetched (crawl_iter n cfg fetch hash (init_state seed))) =
     visited (crawl_iter n cfg fetch hash (init_state seed)) \<and>
   (q s = (addr, depth) # rest \<and> addr \<in> visited s \<longrightarrow>
      crawl_step cfg fetch hash s = s\<lparr>q := rest\<rparr>) \<and>
   (q s = (addr, depth) # rest \<longrightarrow>
      (\<exists>new. q (crawl_step cfg fetch hash s) = rest @ new \<and>
         (\<forall>(a, d) \<in> set new. a \<notin> visited (crawl_step cfg fetch hash s))))"
proof (intro conjI impI)
  show "distinct (fetched (crawl_iter n cfg fetch hash (init_state seed)))"
    using fetched_invariant by blast
  show "set (fetched (crawl_iter n cfg fetch hash (init_state seed))) =
     visited (crawl_iter n cfg fetch hash (init_state seed))"
    using fetched_invariant by blast
next
  assume "q s = (addr, depth) # rest \<and> addr \<in> visited s"
  then show "crawl_step cfg fetch hash s = s\<lparr>q := rest\<rparr>"
    by (simp add: crawl_step_skip)
next
  assume "q s = (addr, depth) # rest"
  from crawl_step_queue [OF this, of cfg fetch hash]
  show "\<exists>new. q (crawl_step cfg fetch hash s) = rest @ new \<and>
         (\<forall>(a, d) \<in> set new. a \<notin> visited (crawl_step cfg fetch hash s))"
    by fast
qed

lemma depth_step:
  assumes "\<forall>(a, d) \<in> set (q s). d \<le> MAX_DEPTH cfg"
  shows "\<forall>(a, d) \<in> set (q (crawl_step cfg fetch hash s)). d \<le> MAX_DEPTH cfg"
proof (cases "q s")
  case Nil
  with assms show ?thesis by (simp add: crawl_step_empty)
next
  case (Cons x rest)
  obtain addr depth where x: "x = (addr, depth)" by (cases x)
  have qs: "q s = (addr, depth) # rest" using Cons x by simp
  from crawl_step_queue [OF qs, of cfg fetch hash] obtain new where
    n: "q (crawl_step cfg fetch hash s) = rest @ new"
    and d: "\<forall>(a, d) \<in> set new. d = depth + 1 \<and> depth < MAX_DEPTH cfg"
    by fast
  from assms qs have "\<forall>(a, d) \<in> set rest. d \<le> MAX_DEPTH cfg" by simp
  with d show ?thesis unfolding n by fastforce
qed

lemma depth_invariant:
  "\<forall>(a, d) \<in> set (q (crawl_iter n cfg fetch hash (init_state seed))). d \<le> MAX_DEPTH cfg"
proof (rule crawl_iter_invariant)
  show "\<forall>(a, d) \<in> set (q (init_state seed)). d \<le> MAX_DEPTH cfg"
    by (simp add: init_state_def)
next
  fix s :: crawl_state
  assume "\<forall>(a, d) \<in> set (q s). d \<le> MAX_DEPTH cfg"
  then show "\<forall>(a, d) \<in> set (q (crawl_step cfg fetch hash s)). d \<le> MAX_DEPTH cfg"
    by (rule depth_step)
qed

lemma depth_zero_step:
  assumes z: "MAX_DEPTH cfg = 0"
    and i: "(q s = [(seed, 0)] \<and> fetched s = [] \<and> visited s = {}) \<or> (q s = [] \<and> fetched s = [seed])"
    and c: "loop_cond cfg s"
  shows "(q (crawl_step cfg fetch hash s) = [(seed, 0)] \<and> fetched (crawl_step cfg fetch hash s) = [] \<and>
            visited (crawl_step cfg fetch hash s) = {}) \<or>
         (q (crawl_step cfg fetch hash s) = [] \<and> fetched (crawl_step cfg fetch hash s) = [seed])"
proof -
  from c have "q s \<noteq> []" by (simp add: loop_cond_def)
  with i have qs: "q s = (seed, 0) # []" and f: "fetched s = []" and v: "visited s = {}" by auto
  from crawl_step_queue [OF qs, of cfg fetch hash] obtain new where
    n: "q (crawl_step cfg fetch hash s) = [] @ new"
    and d: "\<forall>(a, d) \<in> set new. (0::nat) < MAX_DEPTH cfg"
    by fast
  from d z have "new = []" by (cases new) auto
  with n have q': "q (crawl_step cfg fetch hash s) = []" by simp
  have "fetched (crawl_step cfg fetch hash s) = [seed]"
  proof (cases s rule: crawl_step_cases [where cfg = cfg and fetch = fetch and hash = hash])
    case empty
    with qs show ?thesis by simp
  next
    case (skip addr depth rest)
    with qs v show ?thesis by simp
  next
    case (failed addr depth rest e)
    with qs f show ?thesis by simp
  next
    case (fetched addr depth rest txs ew na neigh)
    with qs f show ?thesis by simp
  qed
  with q' show ?thesis by simp
qed

lemma depth_zero_invariant:
  assumes "MAX_DEPTH cfg = 0"
  shows "(q (crawl_iter n cfg fetch hash (init_state seed)) = [(seed, 0)] \<and>
          fetched (crawl_iter n cfg fetch hash (init_state seed)) = [] \<and>
          visited (crawl_iter n cfg fetch hash (init_state seed)) = {}) \<or>
         (q (crawl_iter n cfg fetch hash (init_state seed)) = [] \<and>
          fetched (crawl_iter n cfg fetch hash (init_state seed)) = [seed])"
proof (rule crawl_iter_invariant)
  show "(q (init_state seed) = [(seed, 0)] \<and> fetched (init_state seed) = [] \<and>
          visited (init_state seed) = {}) \<or>
        (q (init_state seed) = [] \<and> fetched (init_state seed) = [seed])"
    by (simp add: init_state_def)
next
  fix s :: crawl_state
  assume "(q s = [(seed, 0)] \<and> fetched s = [] \<and> visited s = {}) \<or> (q s = [] \<and> fetched s = [seed])"
    and "loop_cond cfg s"
  with assms show "(q (crawl_step cfg fetch hash s) = [(seed, 0)] \<and>
            fetched (crawl_step cfg fetch hash s) = [] \<and>
            visited (crawl_step cfg fetch hash s) = {}) \<or>
         (q (crawl_step cfg fetch hash s) = [] \<and> fetched (crawl_step cfg fetch hash s) = [seed])"
    by (rule depth_zero_step)
qed

text \<open>
  Claim C6. Every entry of the frontier has a depth of at most \<^verbatim>\<open>MAX_DEPTH\<close>: the seed
  starts at depth 0, and a round appends entries only at the depth of the dequeued
  address plus one and only when that depth is below the maximum. With a maximum depth
  of 0 the frontier is the seed or empty and only the seed is ever fetched.
\<close>

theorem depth_never_exceeds_maximum:
  "(\<forall>(a, d) \<in> set (q (crawl_iter n cfg fetch hash (init_state seed))). d \<le> MAX_DEPTH cfg) \<and>
   q (init_state seed) = [(seed, 0)] \<and>
   (q s = (addr, depth) # rest \<longrightarrow>
      (\<exists>new. q (crawl_step cfg fetch hash s) = rest @ new \<and>
         (\<forall>(a, d) \<in> set new. d = depth + 1 \<and> depth < MAX_DEPTH cfg))) \<and>
   (MAX_DEPTH cfg = 0 \<longrightarrow>
      (q (crawl_iter n cfg fetch hash (init_state seed)) = [(seed, 0)] \<and>
       fetched (crawl_iter n cfg fetch hash (init_state seed)) = []) \<or>
      (q (crawl_iter n cfg fetch hash (init_state seed)) = [] \<and>
       fetched (crawl_iter n cfg fetch hash (init_state seed)) = [seed]))"
proof (intro conjI impI)
  show "\<forall>(a, d) \<in> set (q (crawl_iter n cfg fetch hash (init_state seed))). d \<le> MAX_DEPTH cfg"
    by (rule depth_invariant)
  show "q (init_state seed) = [(seed, 0)]"
    by (simp add: init_state_def)
next
  assume "q s = (addr, depth) # rest"
  from crawl_step_queue [OF this, of cfg fetch hash]
  show "\<exists>new. q (crawl_step cfg fetch hash s) = rest @ new \<and>
         (\<forall>(a, d) \<in> set new. d = depth + 1 \<and> depth < MAX_DEPTH cfg)"
    by fast
next
  assume "MAX_DEPTH cfg = 0"
  from depth_zero_invariant [OF this, of n fetch hash seed]
  show "(q (crawl_iter n cfg fetch hash (init_state seed)) = [(seed, 0)] \<and>
       fetched (crawl_iter n cfg fetch hash (init_state seed)) = []) \<or>
      (q (crawl_iter n cfg fetch hash (init_state seed)) = [] \<and>
       fetched (crawl_iter n cfg fetch hash (init_state seed)) = [seed])"
    by blast
qed

lemma loop_cond_init: "loop_cond cfg (init_state seed) = (0 < MAX_NODES cfg)"
  by (simp add: loop_cond_def init_state_def len_G_def)

lemma crawl_iter_scenario_1:
  "crawl_iter (Suc n) cfg_default fetch_scenario hash (init_state ''A'') =
   crawl_iter n cfg_default fetch_scenario hash
     \<lparr>G = \<lparr>g_nodes = [''A'', ''B'', ''C''],
            g_edges = [((''A'', ''B''), 1), ((''A'', ''C''), 1 / 2)]\<rparr>,
      visited = {''A''},
      q = map (\<lambda>nb. (nb, 1)) (sort_key (hash [''B'', ''C'']) [''B'', ''C'']),
      edge_w = [((''A'', ''B''), 1), ((''A'', ''C''), 1 / 2)],
      node_amount = [(''A'', 3 / 2), (''B'', 1), (''C'', 1 / 2)],
      stdout = [], fetched = [''A'']\<rparr>"
  by (simp add: loop_cond_init step_scenario enqueue_eq)
     (simp add: cfg_default_def set_iter_def len_G_def)

lemma crawl_scenario:
  "crawl_graph (Suc (Suc (Suc 0))) cfg_default fetch_scenario hash ''A'' =
     Some (\<lparr>g_nodes = [''A'', ''B'', ''C''],
             g_edges = [((''A'', ''B''), 1), ((''A'', ''C''), 1 / 2)]\<rparr>,
           [(''A'', 3 / 2), (''B'', 1), (''C'', 1 / 2)],
           [((''A'', ''B''), 1), ((''A'', ''C''), 1 / 2)])"
proof (cases "hash [''B'', ''C''] ''B'' \<le> hash [''B'', ''C''] ''C''")
  case True
  then show ?thesis
    unfolding crawl_graph_def crawl_iter_scenario_1
    by (simp add: crawl_step_def cfg_default_def len_G_def fetch_scenario_def
          address_edges_from_txs_def add_node_def add_edge_def has_node_def Let_def loop_cond_def
          set_iter_def)
next
  case False
  then show ?thesis
    unfolding crawl_graph_def crawl_iter_scenario_1
    by (simp add: crawl_step_def cfg_default_def len_G_def fetch_scenario_def
          address_edges_from_txs_def add_node_def add_edge_def has_node_def Let_def loop_cond_def
          set_iter_def)
qed

lemma diamond_round_1:
  "crawl_step cfg_default fetch_diamond hash_zero (init_state ''A'') = diamond_1"
proof -
  have a: "q (init_state ''A'') = (''A'', 0) # []" by (simp add: init_state_def)
  have b: "''A'' \<notin> visited (init_state ''A'')" by (simp add: init_state_def)
  have c: "fetch_diamond ''A'' = Inr [tx_one_in_two_out]" by (simp add: fetch_diamond_def)
  have d: "accumulate cfg_default 0 (address_edges_from_txs [tx_one_in_two_out])
             (edge_w (init_state ''A''), node_amount (init_state ''A''), []) =
           ([((''A'', ''B''), 1), ((''A'', ''C''), 1 / 2)],
            [(''A'', 3 / 2), (''B'', 1), (''C'', 1 / 2)], [''B'', ''C''])"
    by (simp add: edges_scenario init_state_def cfg_default_def set_add_def float_evals)
  have g: "write_edges [((''A'', ''B''), 1), ((''A'', ''C''), 1 / 2)]
             (add_node (G (init_state ''A'')) ''A'') =
           \<lparr>g_nodes = [''A'', ''B'', ''C''],
             g_edges = [((''A'', ''B''), 1), ((''A'', ''C''), 1 / 2)]\<rparr>"
    by (simp add: init_state_def add_node_record write_edges_record set_add_def
        del: write_edges.simps(2))
  show ?thesis
    unfolding crawl_step_fetched [where fetch = fetch_diamond, OF a b c d] g
    by (simp add: init_state_def diamond_1_def set_iter_def hash_zero_def len_G_def cfg_default_def)
qed

lemma diamond_round_2: "crawl_step cfg_default fetch_diamond hash_zero diamond_1 = diamond_2"
proof -
  have a: "q diamond_1 = (''B'', 1) # [(''C'', 1)]" by (simp add: diamond_1_def)
  have b: "''B'' \<notin> visited diamond_1" by (simp add: diamond_1_def)
  have c: "fetch_diamond ''B'' = Inr [tx_B_to_C]" by (simp add: fetch_diamond_def)
  have d: "accumulate cfg_default 1 (address_edges_from_txs [tx_B_to_C])
             (edge_w diamond_1, node_amount diamond_1, []) =
           ([((''A'', ''B''), 1), ((''A'', ''C''), 1 / 2), ((''B'', ''C''), 1 / 4)],
            [(''A'', 3 / 2), (''B'', 5 / 4), (''C'', 3 / 4)], [''C''])"
    by (simp add: edges_B_to_C diamond_1_def cfg_default_def set_add_def float_evals)
  have g: "write_edges [((''A'', ''B''), 1), ((''A'', ''C''), 1 / 2), ((''B'', ''C''), 1 / 4)]
             (add_node (G diamond_1) ''B'') =
           \<lparr>g_nodes = [''A'', ''B'', ''C''],
             g_edges = [((''A'', ''B''), 1), ((''A'', ''C''), 1 / 2), ((''B'', ''C''), 1 / 4)]\<rparr>"
    by (simp add: diamond_1_def add_node_record write_edges_record set_add_def
        del: write_edges.simps(2))
  show ?thesis
    unfolding crawl_step_fetched [where fetch = fetch_diamond, OF a b c d] g
    by (simp add: diamond_1_def diamond_2_def set_iter_def hash_zero_def len_G_def cfg_default_def)
qed

lemma diamond_round_3: "crawl_step cfg_default fetch_diamond hash_zero diamond_2 = state_revisit"
proof -
  have a: "q diamond_2 = (''C'', 1) # [(''C'', 2)]" by (simp add: diamond_2_def)
  have b: "''C'' \<notin> visited diamond_2" by (simp add: diamond_2_def)
  have c: "fetch_diamond ''C'' = Inr []" by (simp add: fetch_diamond_def)
  have d: "accumulate cfg_default 1 (address_edges_from_txs [])
             (edge_w diamond_2, node_amount diamond_2, []) =
           ([((''A'', ''B''), 1), ((''A'', ''C''), 1 / 2), ((''B'', ''C''), 1 / 4)],
            [(''A'', 3 / 2), (''B'', 5 / 4), (''C'', 3 / 4)], [])"
    by (simp add: edges_none diamond_2_def)
  have g: "write_edges [((''A'', ''B''), 1), ((''A'', ''C''), 1 / 2), ((''B'', ''C''), 1 / 4)]
             (add_node (G diamond_2) ''C'') =
           \<lparr>g_nodes = [''A'', ''B'', ''C''],
             g_edges = [((''A'', ''B''), 1), ((''A'', ''C''), 1 / 2), ((''B'', ''C''), 1 / 4)]\<rparr>"
    by (simp add: diamond_2_def add_node_record write_edges_record set_add_def
        del: write_edges.simps(2))
  show ?thesis
    unfolding crawl_step_fetched [where fetch = fetch_diamond, OF a b c d] g
    by (simp add: diamond_2_def state_revisit_def set_iter_def hash_zero_def)
qed

lemma diamond_conds:
  "loop_cond cfg_default (init_state ''A'')" "loop_cond cfg_default diamond_1"
  "loop_cond cfg_default diamond_2"
  by (simp_all add: loop_cond_def init_state_def len_G_def cfg_default_def diamond_1_def
      diamond_2_def)

lemma state_revisit_reached:
  "crawl_iter (Suc (Suc (Suc 0))) cfg_default fetch_diamond hash_zero (init_state ''A'') =
     state_revisit"
  by (simp add: diamond_conds diamond_round_1 diamond_round_2 diamond_round_3)


text \<open>The rounds of the crawls that show the rounding and the merging of batches.\<close>

lemma edges_A_to_B_one: "address_edges_from_txs [tx_A_to_B 100000000] = [(''A'', ''B'', 1)]"
  by (simp add: address_edges_from_txs_def tx_edges_def tx_inputs_def tx_outs_def tx_A_to_B_def
      input_A_def float_evals)

lemma shared_round_1:
  "crawl_step cfg_default fetch_shared hash_zero (init_state ''A'') = shared_1"
proof -
  have a: "q (init_state ''A'') = (''A'', 0) # []" by (simp add: init_state_def)
  have b: "''A'' \<notin> visited (init_state ''A'')" by (simp add: init_state_def)
  have c: "fetch_shared ''A'' = Inr [tx_A_to_B 100000000]" by (simp add: fetch_shared_def)
  have d: "accumulate cfg_default 0 (address_edges_from_txs [tx_A_to_B 100000000])
             (edge_w (init_state ''A''), node_amount (init_state ''A''), []) =
           ([((''A'', ''B''), 1)], [(''A'', 1), (''B'', 1)], [''B''])"
    by (simp add: edges_A_to_B_one init_state_def cfg_default_def set_add_def float_evals)
  have g: "write_edges [((''A'', ''B''), 1)] (add_node (G (init_state ''A'')) ''A'') =
           \<lparr>g_nodes = [''A'', ''B''], g_edges = [((''A'', ''B''), 1)]\<rparr>"
    by (simp add: init_state_def add_node_record write_edges_record set_add_def
        del: write_edges.simps(2))
  show ?thesis
    unfolding crawl_step_fetched [where fetch = fetch_shared, OF a b c d] g
    by (simp add: init_state_def shared_1_def set_iter_def hash_zero_def len_G_def cfg_default_def)
qed

lemma shared_round_2:
  "edge_w (crawl_step cfg_default fetch_shared hash_zero shared_1) = [((''A'', ''B''), 2)] \<and>
   node_amount (crawl_step cfg_default fetch_shared hash_zero shared_1) = [(''A'', 2), (''B'', 2)] \<and>
   fetched (crawl_step cfg_default fetch_shared hash_zero shared_1) = [''A'', ''B'']"
proof -
  have a: "q shared_1 = (''B'', 1) # []" by (simp add: shared_1_def)
  have b: "''B'' \<notin> visited shared_1" by (simp add: shared_1_def)
  have c: "fetch_shared ''B'' = Inr [tx_A_to_B 100000000]" by (simp add: fetch_shared_def)
  have d: "accumulate cfg_default 1 (address_edges_from_txs [tx_A_to_B 100000000])
             (edge_w shared_1, node_amount shared_1, []) =
           ([((''A'', ''B''), 2)], [(''A'', 2), (''B'', 2)], [''B''])"
    by (simp add: edges_A_to_B_one shared_1_def cfg_default_def set_add_def float_evals)
  show ?thesis
    unfolding crawl_step_fetched [where fetch = fetch_shared, OF a b c d]
    by (simp add: shared_1_def)
qed

lemma edges_three:
  "address_edges_from_txs [tx_A_to_B 10000000, tx_A_to_B 20000000, tx_A_to_B 30000000] =
     [(''A'', ''B'', 3602879701896397 / 36028797018963968),
      (''A'', ''B'', 3602879701896397 / 18014398509481984),
      (''A'', ''B'', 5404319552844595 / 18014398509481984)]"
  by (simp add: address_edges_from_txs_def tx_edges_def tx_inputs_def tx_outs_def tx_A_to_B_def
      input_A_def float_evals)

lemma three_round_1:
  "edge_w (crawl_iter (Suc 0) cfg_default fetch_three hash_zero (init_state ''A'')) =
     [((''A'', ''B''), 1351079888211149 / 2251799813685248)] \<and>
   fetched (crawl_iter (Suc 0) cfg_default fetch_three hash_zero (init_state ''A'')) = [''A'']"
proof -
  have a: "q (init_state ''A'') = (''A'', 0) # []" by (simp add: init_state_def)
  have b: "''A'' \<notin> visited (init_state ''A'')" by (simp add: init_state_def)
  have c: "fetch_three ''A'' = Inr [tx_A_to_B 10000000, tx_A_to_B 20000000, tx_A_to_B 30000000]"
    by (simp add: fetch_three_def)
  have d: "accumulate cfg_default 0
             (address_edges_from_txs [tx_A_to_B 10000000, tx_A_to_B 20000000, tx_A_to_B 30000000])
             (edge_w (init_state ''A''), node_amount (init_state ''A''), []) =
           ([((''A'', ''B''), 1351079888211149 / 2251799813685248)],
            [(''A'', 1351079888211149 / 2251799813685248),
             (''B'', 1351079888211149 / 2251799813685248)], [''B''])"
    by (simp add: edges_three init_state_def cfg_default_def set_add_def float_evals)
  have l: "loop_cond cfg_default (init_state ''A'')"
    by (simp add: loop_cond_init cfg_default_def)
  show ?thesis
    using l unfolding crawl_iter.simps crawl_step_fetched [where fetch = fetch_three, OF a b c d]
    by (simp add: init_state_def)
qed

lemma edges_B_C_B:
  "address_edges_from_txs [tx_B_C_B] =
     [(''A'', ''B'', 3602879701896397 / 36028797018963968),
      (''A'', ''C'', 3602879701896397 / 18014398509481984),
      (''A'', ''B'', 3602879701896397 / 9007199254740992)]"
  by (simp add: address_edges_from_txs_def tx_edges_def tx_inputs_def tx_outs_def tx_B_C_B_def
      input_A_def float_evals)

lemma B_C_B_round_1:
  "edge_w (crawl_iter (Suc 0) cfg_default fetch_B_C_B hash_zero (init_state ''A'')) =
     [((''A'', ''B''), 1 / 2), ((''A'', ''C''), 3602879701896397 / 18014398509481984)] \<and>
   node_amount (crawl_iter (Suc 0) cfg_default fetch_B_C_B hash_zero (init_state ''A'')) =
     [(''A'', 6305039478318695 / 9007199254740992), (''B'', 1 / 2),
      (''C'', 3602879701896397 / 18014398509481984)]"
proof -
  have a: "q (init_state ''A'') = (''A'', 0) # []" by (simp add: init_state_def)
  have b: "''A'' \<notin> visited (init_state ''A'')" by (simp add: init_state_def)
  have c: "fetch_B_C_B ''A'' = Inr [tx_B_C_B]" by (simp add: fetch_B_C_B_def)
  have d: "accumulate cfg_default 0 (address_edges_from_txs [tx_B_C_B])
             (edge_w (init_state ''A''), node_amount (init_state ''A''), []) =
           ([((''A'', ''B''), 1 / 2), ((''A'', ''C''), 3602879701896397 / 18014398509481984)],
            [(''A'', 6305039478318695 / 9007199254740992), (''B'', 1 / 2),
             (''C'', 3602879701896397 / 18014398509481984)], [''B'', ''C''])"
    by (simp add: edges_B_C_B init_state_def cfg_default_def set_add_def float_evals)
  have l: "loop_cond cfg_default (init_state ''A'')"
    by (simp add: loop_cond_init cfg_default_def)
  show ?thesis
    using l unfolding crawl_iter.simps crawl_step_fetched [where fetch = fetch_B_C_B, OF a b c d]
    by (simp add: init_state_def)
qed

text \<open>
  The nodes of the graph after the edges are written: the loop adds both endpoints of
  every entry of the weight table, and the table has an entry for every pair of the
  batch. No test of \<^verbatim>\<open>MAX_NODES\<close> stands in the way.
\<close>

lemma g_nodes_add_node: "set (g_nodes (add_node g n)) = insert n (set (g_nodes g))"
  by (auto simp: add_node_def)

lemma g_nodes_add_edge: "set (g_nodes (add_edge g u v w)) = insert u (insert v (set (g_nodes g)))"
  by (auto simp: add_edge_def Let_def g_nodes_add_node)

lemma g_nodes_write_edges:
  "set (g_nodes (write_edges ew g)) = set (g_nodes g) \<union> (\<Union>((u, v), w) \<in> set ew. {u, v})"
proof (induction ew arbitrary: g)
  case Nil
  show ?case by simp
next
  case (Cons e ew)
  obtain u v w where e: "e = ((u, v), w)" by (cases e) auto
  define g2 where
    "g2 = (if \<not> has_node (if \<not> has_node g u then add_node g u else g) v
           then add_node (if \<not> has_node g u then add_node g u else g) v
           else (if \<not> has_node g u then add_node g u else g))"
  have st: "write_edges (e # ew) g = write_edges ew (add_edge g2 u v w)"
    by (simp add: e g2_def Let_def)
  have "set (g_nodes g2) \<subseteq> insert u (insert v (set (g_nodes g)))"
    and "set (g_nodes g) \<subseteq> set (g_nodes g2)"
    by (auto simp: g2_def g_nodes_add_node)
  then have n: "set (g_nodes (add_edge g2 u v w)) = insert u (insert v (set (g_nodes g)))"
    unfolding g_nodes_add_edge by blast
  show ?case
    unfolding st Cons.IH n by (auto simp: e)
qed

lemma dd_add_keys: "fst ` set (dd_add k w d) = insert k (fst ` set d)"
proof (induction d)
  case Nil
  show ?case by simp
next
  case (Cons p d)
  obtain k' x where p: "p = (k', x)" by (cases p)
  show ?case
  proof (cases "k' = k")
    case True
    then show ?thesis by (simp add: p)
  next
    case False
    then show ?thesis by (simp add: p Cons.IH insert_commute)
  qed
qed

lemma accumulate_keys:
  "fst ` set (fst (accumulate cfg depth es (ew, na, neigh))) =
     fst ` set ew \<union> (\<lambda>(u, v, w). (u, v)) ` set es"
proof (induction es arbitrary: ew na neigh)
  case Nil
  show ?case by simp
next
  case (Cons e es)
  obtain u v w where e: "e = (u, v, w)" by (cases e)
  show ?case unfolding e by (simp add: Cons.IH dd_add_keys)
qed

lemma endpoints_become_nodes:
  assumes "q s = (addr, depth) # rest" and "addr \<notin> visited s" and "fetch addr = Inr txs"
    and "(u, v, w) \<in> set (address_edges_from_txs txs)"
  shows "u \<in> set (g_nodes (G (crawl_step cfg fetch hash s))) \<and>
         v \<in> set (g_nodes (G (crawl_step cfg fetch hash s)))"
proof -
  obtain ew na neigh where
    a: "accumulate cfg depth (address_edges_from_txs txs) (edge_w s, node_amount s, []) = (ew, na, neigh)"
    by (cases "accumulate cfg depth (address_edges_from_txs txs) (edge_w s, node_amount s, [])")
  from accumulate_keys [of cfg depth "address_edges_from_txs txs" "edge_w s" "node_amount s" "[]"] a
  have "fst ` set ew = fst ` set (edge_w s) \<union> (\<lambda>(u, v, w). (u, v)) ` set (address_edges_from_txs txs)"
    by simp
  moreover from assms(4) have "(u, v) \<in> (\<lambda>(u, v, w). (u, v)) ` set (address_edges_from_txs txs)"
    by (rule rev_image_eqI) simp
  ultimately have "(u, v) \<in> fst ` set ew" by simp
  then obtain x where x: "((u, v), x) \<in> set ew" by (auto simp: image_iff)
  have "u \<in> (\<Union>((u, v), w) \<in> set ew. {u, v})" "v \<in> (\<Union>((u, v), w) \<in> set ew. {u, v})"
    by (rule UN_I [OF x], simp)+
  then have "u \<in> set (g_nodes (write_edges ew (add_node (G s) addr))) \<and>
             v \<in> set (g_nodes (write_edges ew (add_node (G s) addr)))"
    unfolding g_nodes_write_edges by blast
  with crawl_step_fetched [where fetch = fetch, OF assms(1-3) a] show ?thesis by simp
qed

text \<open>
  Claim C4, as amended. After every round of the crawl, the node amount of an address is
  the floating-point sum of the weights of the edge triples attributed so far of which
  the address is the source or the destination, added to 0.0 one after the other in the
  order of attribution (a triple from an address to itself counts twice); a round that
  fetches a batch goes on from the amount before the round. For the seed A with one
  transaction with input A and outputs (B, 1.0) and (C, 0.5), the crawl returns the edges
  A-B of weight 1.0 and A-C of weight 0.5 and the node amounts 1.5 for A, 1.0 for B and
  0.5 for C, which here are the sums of the weights of the edges at each address.
\<close>

theorem node_amount_is_float_sum:
  "dict_get0 (node_amount (crawl_iter n cfg fetch hash (init_state seed))) a =
     float_sum (node_weights a (attributed fetch (crawl_iter n cfg fetch hash (init_state seed)))) \<and>
   (q s = (addr, depth) # rest \<and> addr \<notin> visited s \<and> fetch addr = Inr txs \<longrightarrow>
      dict_get0 (node_amount (crawl_step cfg fetch hash s)) a =
        foldl fadd (dict_get0 (node_amount s) a) (node_weights a (address_edges_from_txs txs))) \<and>
   crawl_graph (Suc (Suc (Suc 0))) cfg_default fetch_scenario hash ''A'' =
     Some (\<lparr>g_nodes = [''A'', ''B'', ''C''],
             g_edges = [((''A'', ''B''), 1), ((''A'', ''C''), 1 / 2)]\<rparr>,
           [(''A'', 3 / 2), (''B'', 1), (''C'', 1 / 2)],
           [((''A'', ''B''), 1), ((''A'', ''C''), 1 / 2)]) \<and>
   dict_get0 [(''A'', 3 / 2), (''B'', 1), (''C'', 1 / 2)] ''A'' = 3 / 2 \<and>
   dict_get0 [(''A'', 3 / 2), (''B'', 1), (''C'', 1 / 2)] ''B'' = 1 \<and>
   dict_get0 [(''A'', 3 / 2), (''B'', 1), (''C'', 1 / 2)] ''C'' = 1 / 2 \<and>
   sum_list (incident_weights ''A'' [((''A'', ''B''), 1), ((''A'', ''C''), 1 / 2)]) = 3 / 2 \<and>
   sum_list (incident_weights ''B'' [((''A'', ''B''), 1), ((''A'', ''C''), 1 / 2)]) = 1 \<and>
   sum_list (incident_weights ''C'' [((''A'', ''B''), 1), ((''A'', ''C''), 1 / 2)]) = 1 / 2"
proof -
  have i: "dict_get0 (node_amount (crawl_iter n cfg fetch hash (init_state seed))) a =
     float_sum (node_weights a (attributed fetch (crawl_iter n cfg fetch hash (init_state seed))))"
    using sums_invariant by blast
  have st: "dict_get0 (node_amount (crawl_step cfg fetch hash s)) a =
        foldl fadd (dict_get0 (node_amount s) a) (node_weights a (address_edges_from_txs txs))"
    if "q s = (addr, depth) # rest \<and> addr \<notin> visited s \<and> fetch addr = Inr txs"
  proof -
    from that have h1: "q s = (addr, depth) # rest" and h2: "addr \<notin> visited s"
      and h3: "fetch addr = Inr txs" by simp_all
    from edge_w_fetched_step [where fetch = fetch, OF h1 h2 h3] show ?thesis by blast
  qed
  have v: "dict_get0 [(''A'', 3 / 2), (''B'', 1), (''C'', 1 / 2)] ''A'' = 3 / 2"
    "dict_get0 [(''A'', 3 / 2), (''B'', 1), (''C'', 1 / 2)] ''B'' = 1"
    "dict_get0 [(''A'', 3 / 2), (''B'', 1), (''C'', 1 / 2)] ''C'' = 1 / 2"
    by (simp_all add: dict_get0_def)
  have w: "sum_list (incident_weights ''A'' [((''A'', ''B''), 1), ((''A'', ''C''), 1 / 2)]) = 3 / 2"
    "sum_list (incident_weights ''B'' [((''A'', ''B''), 1), ((''A'', ''C''), 1 / 2)]) = 1"
    "sum_list (incident_weights ''C'' [((''A'', ''B''), 1), ((''A'', ''C''), 1 / 2)]) = 1 / 2"
    by (simp_all add: incident_weights_def)
  from i st crawl_scenario [of hash] v w show ?thesis by blast
qed

text \<open>
  In the second round of the crawl from A where B sends 0.25 to C, the amount of B,
  which was 1.0, becomes 1.25.
\<close>

theorem node_amount_is_float_sum_witness:
  "q diamond_1 = (''B'', 1) # [(''C'', 1)] \<and> ''B'' \<notin> visited diamond_1 \<and>
   fetch_diamond ''B'' = Inr [tx_B_to_C] \<and>
   dict_get0 (node_amount diamond_1) ''B'' = 1 \<and>
   node_weights ''B'' (address_edges_from_txs [tx_B_to_C]) = [1 / 4] \<and>
   dict_get0 (node_amount (crawl_step cfg_default fetch_diamond hash_zero diamond_1)) ''B'' = 5 / 4"
proof -
  have h: "q diamond_1 = (''B'', 1) # [(''C'', 1)] \<and> ''B'' \<notin> visited diamond_1 \<and>
      fetch_diamond ''B'' = Inr [tx_B_to_C]"
    by (simp add: diamond_1_def fetch_diamond_def)
  have a: "dict_get0 (node_amount diamond_1) ''B'' = 1"
    by (simp add: diamond_1_def dict_get0_def)
  have b: "node_weights ''B'' (address_edges_from_txs [tx_B_to_C]) = [1 / 4]"
    by (simp add: edges_B_to_C node_weights_def)
  from node_amount_is_float_sum [of 0 cfg_default fetch_diamond hash_zero "''A''" "''B''" diamond_1
      "''B''" 1 "[(''C'', 1)]" "[tx_B_to_C]"] h
  have "dict_get0 (node_amount (crawl_step cfg_default fetch_diamond hash_zero diamond_1)) ''B'' =
        foldl fadd (dict_get0 (node_amount diamond_1) ''B'')
          (node_weights ''B'' (address_edges_from_txs [tx_B_to_C]))"
    by blast
  then have "dict_get0 (node_amount (crawl_step cfg_default fetch_diamond hash_zero diamond_1)) ''B'' =
        5 / 4"
    by (simp add: a b float_evals)
  with h a b show ?thesis by blast
qed

text \<open>
  Claim C4 as it was stated has the node amount equal to the sum of the accumulated
  weights of the edges at the address. With one transaction with input A and the outputs
  (B, 0.1), (C, 0.2) and (B, 0.4), the edge A-B has the weight 0.5, the edge A-C the
  weight 0.2, and the node amount of A is the double 0.7000000000000001, while the
  weights of the two edges add up to the double 0.7, and their exact sum is not the
  node amount either.
\<close>

theorem node_amount_counterexample:
  "dict_get0 (node_amount (crawl_iter (Suc 0) cfg_default fetch_B_C_B hash_zero (init_state ''A'')))
     ''A'' = 6305039478318695 / 9007199254740992 \<and>
   sum_list (incident_weights ''A''
     (edge_w (crawl_iter (Suc 0) cfg_default fetch_B_C_B hash_zero (init_state ''A'')))) \<noteq>
     6305039478318695 / 9007199254740992 \<and>
   float_sum (incident_weights ''A''
     (edge_w (crawl_iter (Suc 0) cfg_default fetch_B_C_B hash_zero (init_state ''A'')))) =
     3152519739159347 / 4503599627370496"
  apply (simp only: B_C_B_round_1)
  apply (simp add: dict_get0_def incident_weights_def float_sum_def float_evals)
  done

text \<open>
  Two batches for one pair: the seed A has one transaction from A to B of 1.0, and so has
  B. After the first round the pair (A, B) has the weight 1.0; the round that fetches B
  adds the weight of its batch to it and the pair has the weight 2.0.
\<close>

theorem edge_weight_is_float_sum_of_attributions_witness:
  "crawl_step cfg_default fetch_shared hash_zero (init_state ''A'') = shared_1 \<and>
   q shared_1 = (''B'', 1) # [] \<and> ''B'' \<notin> visited shared_1 \<and>
   fetch_shared ''B'' = Inr [tx_A_to_B 100000000] \<and>
   dict_get0 (edge_w shared_1) (''A'', ''B'') = 1 \<and>
   pair_weights (''A'', ''B'') (address_edges_from_txs [tx_A_to_B 100000000]) = [1] \<and>
   fetched (crawl_step cfg_default fetch_shared hash_zero shared_1) = [''A'', ''B''] \<and>
   dict_get0 (edge_w (crawl_step cfg_default fetch_shared hash_zero shared_1)) (''A'', ''B'') = 2"
proof -
  have h: "q shared_1 = (''B'', 1) # [] \<and> ''B'' \<notin> visited shared_1 \<and>
      fetch_shared ''B'' = Inr [tx_A_to_B 100000000]"
    by (simp add: shared_1_def fetch_shared_def)
  have a: "dict_get0 (edge_w shared_1) (''A'', ''B'') = 1"
    by (simp add: shared_1_def dict_get0_def)
  have b: "pair_weights (''A'', ''B'') (address_edges_from_txs [tx_A_to_B 100000000]) = [1]"
    by (simp add: edges_A_to_B_one pair_weights_def edge_weights_def)
  have f: "fetched shared_1 = [''A'']" by (simp add: shared_1_def)
  from edge_weight_is_float_sum_of_attributions [of 0 cfg_default fetch_shared hash_zero "''A''"
      "(''A'', ''B'')" shared_1 "''B''" 1 "[]" "[tx_A_to_B 100000000]"] h
  have "fetched (crawl_step cfg_default fetch_shared hash_zero shared_1) = fetched shared_1 @ [''B''] \<and>
      dict_get0 (edge_w (crawl_step cfg_default fetch_shared hash_zero shared_1)) (''A'', ''B'') =
        foldl fadd (dict_get0 (edge_w shared_1) (''A'', ''B''))
          (pair_weights (''A'', ''B'') (address_edges_from_txs [tx_A_to_B 100000000]))"
    by blast
  then have "fetched (crawl_step cfg_default fetch_shared hash_zero shared_1) = [''A'', ''B''] \<and>
      dict_get0 (edge_w (crawl_step cfg_default fetch_shared hash_zero shared_1)) (''A'', ''B'') = 2"
    by (simp add: a b f float_evals)
  with h a b shared_round_1 show ?thesis by blast
qed

text \<open>
  Claim C3 as it was stated has the accumulated weight equal to the sum of the
  attributed weights, whatever the order. With three transactions from A to B of 0.1, 0.2
  and 0.3 the accumulated weight is the double 0.6000000000000001: it is not the sum of
  the three doubles, and adding them in the opposite order gives the double 0.6.
\<close>

theorem edge_weight_sum_counterexample:
  "dict_get0 (edge_w (crawl_iter (Suc 0) cfg_default fetch_three hash_zero (init_state ''A'')))
     (''A'', ''B'') = 1351079888211149 / 2251799813685248 \<and>
   sum_list (pair_weights (''A'', ''B'')
     (attributed fetch_three
       (crawl_iter (Suc 0) cfg_default fetch_three hash_zero (init_state ''A'')))) \<noteq>
     1351079888211149 / 2251799813685248 \<and>
   float_sum (rev (pair_weights (''A'', ''B'')
     (attributed fetch_three
       (crawl_iter (Suc 0) cfg_default fetch_three hash_zero (init_state ''A''))))) =
     5404319552844595 / 9007199254740992"
  apply (simp only: three_round_1 attributed_def)
  apply (simp add: dict_get0_def batch_edges_def fetch_three_def
      edges_three pair_weights_def edge_weights_def float_sum_def float_evals)
  done

text \<open>
  Claim C1 says that the returned graph never has more nodes than \<^verbatim>\<open>MAX_NODES\<close>. The
  loop that writes the edges into the graph adds every endpoint that is missing without
  looking at the cap: with a cap of 2, the seed A and one transaction from A to B and C,
  the crawl returns a graph of 3 nodes after one round.
\<close>

theorem node_cap_exceeded:
  "\<forall>hash. \<exists>g na ew.
     crawl_graph (Suc 0) cfg_small fetch_scenario hash ''A'' = Some (g, na, ew) \<and>
     g_nodes g = [''A'', ''B'', ''C''] \<and> len_G g = 3 \<and> MAX_NODES cfg_small = 2"
  by (simp add: crawl_graph_def loop_cond_init step_scenario)
     (simp add: cfg_small_def loop_cond_def len_G_def)

text \<open>
  Claim C8. When the fetch for the address at the head of the frontier raises an error,
  the round prints a warning, marks the address visited, makes it a node of the graph,
  and changes neither the edges of the graph nor the two accumulators; the frontier is
  the rest of the queue and the crawl goes on from that state.
\<close>

theorem fetch_failure_is_not_fatal:
  assumes "q s = (addr, depth) # rest" and "addr \<notin> visited s" and "fetch addr = Inl e"
    and "len_G (G s) < MAX_NODES cfg"
  shows "crawl_step cfg fetch hash s =
           s\<lparr>q := rest, visited := insert addr (visited s), G := add_node (G s) addr,
             fetched := fetched s @ [addr], stdout := stdout s @ [warn_line addr e]\<rparr> \<and>
         addr \<in> visited (crawl_step cfg fetch hash s) \<and>
         addr \<in> set (g_nodes (G (crawl_step cfg fetch hash s))) \<and>
         g_edges (G (crawl_step cfg fetch hash s)) = g_edges (G s) \<and>
         edge_w (crawl_step cfg fetch hash s) = edge_w s \<and>
         node_amount (crawl_step cfg fetch hash s) = node_amount s \<and>
         q (crawl_step cfg fetch hash s) = rest \<and>
         crawl_iter (Suc n) cfg fetch hash s =
           crawl_iter n cfg fetch hash (crawl_step cfg fetch hash s)"
proof -
  have c: "loop_cond cfg s" using assms(1,4) by (simp add: loop_cond_def)
  have st: "crawl_step cfg fetch hash s =
           s\<lparr>q := rest, visited := insert addr (visited s), G := add_node (G s) addr,
             fetched := fetched s @ [addr], stdout := stdout s @ [warn_line addr e]\<rparr>"
    using assms(1-3) by (rule crawl_step_failed)
  have "addr \<in> set (g_nodes (add_node (G s) addr))" by (simp add: add_node_def)
  moreover have "g_edges (add_node (G s) addr) = g_edges (G s)" by (simp add: add_node_def)
  ultimately show ?thesis using c st by simp
qed

theorem fetch_failure_is_not_fatal_witness:
  "q (init_state ''X'') = (''X'', 0) # [] \<and> ''X'' \<notin> visited (init_state ''X'') \<and>
   fetch_failing ''X'' = Inl (FetchError ''timeout'') \<and>
   len_G (G (init_state ''X'')) < MAX_NODES cfg_default \<and>
   crawl_step cfg_default fetch_failing hash_zero (init_state ''X'') =
     \<lparr>G = \<lparr>g_nodes = [''X''], g_edges = []\<rparr>, visited = {''X''}, q = [],
       edge_w = [], node_amount = [], stdout = [''[warn] fetch X failed: timeout''],
       fetched = [''X'']\<rparr>"
proof -
  have h1: "q (init_state ''X'') = (''X'', 0) # []" by (simp add: init_state_def)
  have h2: "''X'' \<notin> visited (init_state ''X'')" by (simp add: init_state_def)
  have h3: "fetch_failing ''X'' = Inl (FetchError ''timeout'')" by (simp add: fetch_failing_def)
  have h4: "len_G (G (init_state ''X'')) < MAX_NODES cfg_default"
    by (simp add: init_state_def len_G_def cfg_default_def)
  from fetch_failure_is_not_fatal [where fetch = fetch_failing and hash = hash_zero and n = 0,
      OF h1 h2 h3 h4, THEN conjunct1]
  have "crawl_step cfg_default fetch_failing hash_zero (init_state ''X'') =
     \<lparr>G = \<lparr>g_nodes = [''X''], g_edges = []\<rparr>, visited = {''X''}, q = [],
       edge_w = [], node_amount = [], stdout = [''[warn] fetch X failed: timeout''],
       fetched = [''X'']\<rparr>"
    by (simp add: init_state_def add_node_def warn_line_def)
  with h1 h2 h3 h4 show ?thesis by blast
qed

theorem no_address_fetched_twice_witness:
  "crawl_iter (Suc (Suc (Suc 0))) cfg_default fetch_diamond hash_zero (init_state ''A'') =
     state_revisit \<and>
   q state_revisit = (''C'', 2) # [] \<and> ''C'' \<in> visited state_revisit \<and>
   crawl_step cfg_default fetch_diamond hash_zero state_revisit = state_revisit\<lparr>q := []\<rparr> \<and>
   fetched (crawl_step cfg_default fetch_diamond hash_zero state_revisit) = [''A'', ''B'', ''C''] \<and>
   distinct (fetched (crawl_iter (Suc (Suc (Suc 0))) cfg_default fetch_diamond hash_zero
     (init_state ''A'')))"
proof -
  have h: "q state_revisit = (''C'', 2) # [] \<and> ''C'' \<in> visited state_revisit"
    by (simp add: state_revisit_def)
  from no_address_fetched_twice [of "Suc (Suc (Suc 0))" cfg_default fetch_diamond hash_zero "''A''"
      state_revisit "''C''" 2 "[]"] h
  have c: "crawl_step cfg_default fetch_diamond hash_zero state_revisit = state_revisit\<lparr>q := []\<rparr>"
    and d: "distinct (fetched (crawl_iter (Suc (Suc (Suc 0))) cfg_default fetch_diamond hash_zero
      (init_state ''A'')))"
    by blast+
  have "fetched (state_revisit\<lparr>q := []\<rparr>) = [''A'', ''B'', ''C'']"
    by (simp add: state_revisit_def)
  with h c d state_revisit_reached show ?thesis by simp
qed

theorem depth_never_exceeds_maximum_witness:
  "MAX_DEPTH cfg_depth0 = 0 \<and>
   q (crawl_iter 2 cfg_depth0 fetch_scenario hash_zero (init_state ''A'')) = [] \<and>
   fetched (crawl_iter 2 cfg_depth0 fetch_scenario hash_zero (init_state ''A'')) = [''A''] \<and>
   q diamond_1 = (''B'', 1) # [(''C'', 1)] \<and>
   q (crawl_step cfg_default fetch_diamond hash_zero diamond_1) = [(''C'', 1), (''C'', 2)] \<and>
   (\<exists>new. q (crawl_step cfg_default fetch_diamond hash_zero diamond_1) = [(''C'', 1)] @ new \<and>
      (\<forall>(a, d) \<in> set new. d = 1 + 1 \<and> 1 < MAX_DEPTH cfg_default))"
proof -
  have h1: "MAX_DEPTH cfg_depth0 = 0" by (simp add: cfg_depth0_def)
  have h2: "q diamond_1 = (''B'', 1) # [(''C'', 1)]" by (simp add: diamond_1_def)
  have ne: "q (crawl_iter 2 cfg_depth0 fetch_scenario hash_zero (init_state ''A'')) \<noteq> [(''A'', 0)]"
    by (simp add: numeral_2_eq_2 loop_cond_init step_scenario)
       (simp add: cfg_depth0_def set_iter_def loop_cond_def)
  from depth_never_exceeds_maximum [of 2 cfg_depth0 fetch_scenario hash_zero "''A''" "init_state ''A''"
      "''A''" 0 "[]"] h1 ne
  have a: "q (crawl_iter 2 cfg_depth0 fetch_scenario hash_zero (init_state ''A'')) = [] \<and>
   fetched (crawl_iter 2 cfg_depth0 fetch_scenario hash_zero (init_state ''A'')) = [''A'']"
    by blast
  from depth_never_exceeds_maximum [of 0 cfg_default fetch_diamond hash_zero "''A''" diamond_1
      "''B''" 1 "[(''C'', 1)]"] h2
  have b: "\<exists>new. q (crawl_step cfg_default fetch_diamond hash_zero diamond_1) = [(''C'', 1)] @ new \<and>
      (\<forall>(a, d) \<in> set new. d = 1 + 1 \<and> 1 < MAX_DEPTH cfg_default)"
    by blast
  have c: "q (crawl_step cfg_default fetch_diamond hash_zero diamond_1) = [(''C'', 1), (''C'', 2)]"
    by (simp add: diamond_round_2 diamond_2_def)
  from h1 h2 a b c show ?thesis by blast
qed

section \<open>Properties of the fetcher\<close>

lemma fetch_loop_Suc_cases [consumes 1, case_names finished error short more]:
  assumes "fetch_loop (Suc fuel) get a le mx txs off = Some (reqs, r)"
  obtains
    "\<not> int (length txs) < mx" "reqs = []" "r = Inr txs"
  | e where "int (length txs) < mx"
      "get \<lparr>req_address = a, req_limit = min le 50, req_offset = off\<rparr> = Inl e"
      "reqs = [\<lparr>req_address = a, req_limit = min le 50, req_offset = off\<rparr>]" "r = Inl e"
  | batch where "int (length txs) < mx"
      "get \<lparr>req_address = a, req_limit = min le 50, req_offset = off\<rparr> = Inr batch"
      "int (length batch) < min le 50"
      "reqs = [\<lparr>req_address = a, req_limit = min le 50, req_offset = off\<rparr>]"
      "r = Inr (txs @ batch)"
  | batch reqs' where "int (length txs) < mx"
      "get \<lparr>req_address = a, req_limit = min le 50, req_offset = off\<rparr> = Inr batch"
      "\<not> int (length batch) < min le 50"
      "fetch_loop fuel get a le mx (txs @ batch) (off + min le 50) = Some (reqs', r)"
      "reqs = \<lparr>req_address = a, req_limit = min le 50, req_offset = off\<rparr> # reqs'"
proof (cases "int (length txs) < mx")
  case False
  with assms have "reqs = []" "r = Inr txs" by simp_all
  with False that(1) show ?thesis by blast
next
  case True
  let ?P = "\<lparr>req_address = a, req_limit = min le 50, req_offset = off\<rparr>"
  show ?thesis
  proof (cases "get ?P")
    case (Inl e)
    with True have "fetch_loop (Suc fuel) get a le mx txs off = Some ([?P], Inl e)"
      by (simp add: Let_def)
    with assms have "reqs = [?P]" "r = Inl e" by simp_all
    with True Inl that(2) show ?thesis by blast
  next
    case (Inr batch)
    show ?thesis
    proof (cases "int (length batch) < min le 50")
      case short: True
      with True Inr have "fetch_loop (Suc fuel) get a le mx txs off = Some ([?P], Inr (txs @ batch))"
        by (simp add: Let_def del: min_less_iff_conj)
      with assms have "reqs = [?P]" "r = Inr (txs @ batch)" by simp_all
      with True Inr short that(3) show ?thesis by blast
    next
      case full: False
      with True Inr have "fetch_loop (Suc fuel) get a le mx txs off =
          (case fetch_loop fuel get a le mx (txs @ batch) (off + min le 50) of
             None \<Rightarrow> None | Some (reqs, r) \<Rightarrow> Some (?P # reqs, r))"
        by (simp add: Let_def del: min_less_iff_conj)
      with assms obtain reqs' where
        "fetch_loop fuel get a le mx (txs @ batch) (off + min le 50) = Some (reqs', r)"
        "reqs = ?P # reqs'"
        by (auto split: option.splits)
      with True Inr full that(4) show ?thesis by blast
    qed
  qed
qed

lemma received_Nil: "received get [] = []"
  by (simp add: received_def)

lemma received_Cons: "received get (rq # reqs) = page_of get rq @ received get reqs"
  by (simp add: received_def)

lemma page_of_Inr: "get rq = Inr batch \<Longrightarrow> page_of get rq = batch"
  by (simp add: page_of_def)

lemma page_of_Inl: "get rq = Inl e \<Longrightarrow> page_of get rq = []"
  by (simp add: page_of_def)

lemma fetch_loop_requests:
  "fetch_loop fuel get a le mx txs off = Some (reqs, r) \<Longrightarrow> k < length reqs \<Longrightarrow>
   reqs ! k = \<lparr>req_address = a, req_limit = min le 50, req_offset = off + int k * min le 50\<rparr>"
proof (induction fuel arbitrary: txs off reqs k)
  case 0
  then show ?case by simp
next
  case (Suc fuel)
  from Suc.prems(1) show ?case
  proof (cases rule: fetch_loop_Suc_cases)
    case finished
    with Suc.prems(2) show ?thesis by simp
  next
    case (error e)
    with Suc.prems(2) show ?thesis by simp
  next
    case (short batch)
    with Suc.prems(2) show ?thesis by simp
  next
    case (more batch reqs')
    show ?thesis
    proof (cases k)
      case 0
      with more show ?thesis by simp
    next
      case (Suc j)
      with Suc.prems(2) more(5) have "j < length reqs'" by simp
      from Suc.IH [OF more(4) this] Suc more(5) show ?thesis
        by (simp add: algebra_simps)
    qed
  qed
qed

lemma fetch_loop_result:
  "fetch_loop fuel get a le mx txs off = Some (reqs, Inr res) \<Longrightarrow> res = txs @ received get reqs"
proof (induction fuel arbitrary: txs off reqs)
  case 0
  then show ?case by simp
next
  case (Suc fuel)
  from Suc.prems show ?case
  proof (cases rule: fetch_loop_Suc_cases)
    case finished
    then show ?thesis by (simp add: received_Nil)
  next
    case (error e)
    then show ?thesis by simp
  next
    case (short batch)
    then show ?thesis by (simp add: received_Cons received_Nil page_of_Inr)
  next
    case (more batch reqs')
    from Suc.IH [OF more(4)] more(2,5) show ?thesis
      by (simp add: received_Cons page_of_Inr)
  qed
qed

lemma fetch_loop_below_max:
  "fetch_loop fuel get a le mx txs off = Some (reqs, r) \<Longrightarrow> k < length reqs \<Longrightarrow>
   int (length txs + length (received get (take k reqs))) < mx"
proof (induction fuel arbitrary: txs off reqs k)
  case 0
  then show ?case by simp
next
  case (Suc fuel)
  from Suc.prems(1) show ?case
  proof (cases rule: fetch_loop_Suc_cases)
    case finished
    with Suc.prems(2) show ?thesis by simp
  next
    case (error e)
    with Suc.prems(2) show ?thesis by (simp add: received_Nil)
  next
    case (short batch)
    with Suc.prems(2) show ?thesis by (simp add: received_Nil)
  next
    case (more batch reqs')
    show ?thesis
    proof (cases k)
      case 0
      with more show ?thesis by (simp add: received_Nil)
    next
      case (Suc j)
      with Suc.prems(2) more(5) have "j < length reqs'" by simp
      from Suc.IH [OF more(4) this] Suc more(2,5) show ?thesis
        by (simp add: received_Cons page_of_Inr)
    qed
  qed
qed

lemma fetch_loop_full_pages:
  "fetch_loop fuel get a le mx txs off = Some (reqs, r) \<Longrightarrow> Suc k < length reqs \<Longrightarrow>
   \<exists>batch. get (reqs ! k) = Inr batch \<and> min le 50 \<le> int (length batch)"
proof (induction fuel arbitrary: txs off reqs k)
  case 0
  then show ?case by simp
next
  case (Suc fuel)
  from Suc.prems(1) show ?case
  proof (cases rule: fetch_loop_Suc_cases)
    case finished
    with Suc.prems(2) show ?thesis by simp
  next
    case (error e)
    with Suc.prems(2) show ?thesis by simp
  next
    case (short batch)
    with Suc.prems(2) show ?thesis by simp
  next
    case (more batch reqs')
    show ?thesis
    proof (cases k)
      case 0
      from more(3) have "min le 50 \<le> int (length batch)" by linarith
      with 0 more(2,5) show ?thesis by simp
    next
      case (Suc j)
      with Suc.prems(2) more(5) have "Suc j < length reqs'" by simp
      from Suc.IH [OF more(4) this] Suc more(5) show ?thesis by simp
    qed
  qed
qed

lemma fetch_loop_stop:
  "fetch_loop fuel get a le mx txs off = Some (reqs, r) \<Longrightarrow>
   (reqs = [] \<and> mx \<le> int (length txs) \<and> r = Inr txs) \<or>
   (reqs \<noteq> [] \<and>
    (case get (last reqs) of
       Inl e \<Rightarrow> r = Inl e
     | Inr batch \<Rightarrow> r = Inr (txs @ received get reqs) \<and>
         (int (length batch) < min le 50 \<or> mx \<le> int (length (txs @ received get reqs)))))"
proof (induction fuel arbitrary: txs off reqs)
  case 0
  then show ?case by simp
next
  case (Suc fuel)
  from Suc.prems show ?case
  proof (cases rule: fetch_loop_Suc_cases)
    case finished
    then show ?thesis by simp
  next
    case (error e)
    then show ?thesis by simp
  next
    case (short batch)
    then show ?thesis by (simp add: received_Cons received_Nil page_of_Inr)
  next
    case (more batch reqs')
    from Suc.IH [OF more(4)] show ?thesis
    proof
      assume "reqs' = [] \<and> mx \<le> int (length (txs @ batch)) \<and> r = Inr (txs @ batch)"
      with more(2,5) show ?thesis
        by (simp add: received_Cons received_Nil page_of_Inr)
    next
      assume "reqs' \<noteq> [] \<and>
        (case get (last reqs') of
           Inl e \<Rightarrow> r = Inl e
         | Inr b \<Rightarrow> r = Inr ((txs @ batch) @ received get reqs') \<and>
             (int (length b) < min le 50 \<or> mx \<le> int (length ((txs @ batch) @ received get reqs'))))"
      with more(2,5) show ?thesis
        by (simp add: received_Cons page_of_Inr split: sum.splits)
    qed
  qed
qed

lemma fetch_loop_returns:
  "0 < min le 50 \<Longrightarrow> nat (mx - int (length txs)) < fuel \<Longrightarrow>
   \<exists>reqs r. fetch_loop fuel get a le mx txs off = Some (reqs, r)"
proof (induction fuel arbitrary: txs off)
  case 0
  then show ?case by simp
next
  case (Suc fuel)
  let ?P = "\<lparr>req_address = a, req_limit = min le 50, req_offset = off\<rparr>"
  show ?case
  proof (cases "int (length txs) < mx")
    case False
    then show ?thesis by simp
  next
    case True
    show ?thesis
    proof (cases "get ?P")
      case (Inl e)
      with True show ?thesis by (simp add: Let_def)
    next
      case (Inr batch)
      show ?thesis
      proof (cases "int (length batch) < min le 50")
        case short: True
        with True Inr show ?thesis by (simp add: Let_def del: min_less_iff_conj)
      next
        case full: False
        from full Suc.prems(1) have "1 \<le> int (length batch)" by linarith
        with Suc.prems(2) True have "nat (mx - int (length (txs @ batch))) < fuel" by simp
        from Suc.IH [OF Suc.prems(1) this, of "off + min le 50"] obtain reqs r where
          "fetch_loop fuel get a le mx (txs @ batch) (off + min le 50) = Some (reqs, r)" by blast
        with True Inr full show ?thesis by (simp add: Let_def del: min_less_iff_conj)
      qed
    qed
  qed
qed

lemma length_py_prefix: "0 \<le> k \<or> xs = [] \<Longrightarrow> length (py_prefix xs k) \<le> nat k"
  by (auto simp: py_prefix_def)

lemma fetch_loop_nonpositive_max:
  "mx \<le> 0 \<Longrightarrow> fetch_loop (Suc fuel) get a le mx [] off = Some ([], Inr [])"
  by simp

text \<open>
  Claim C9. With a positive page size the fetcher returns (the fuel bound only says that
  the loop is run to its end) and, when no request fails, it returns at most \<open>max_txs\<close>
  transactions: the first \<open>max_txs\<close> of the pages received. Every request asks for the
  same page size \<open>min limit_each 50\<close>, which is at most 50, at the offsets 0, size,
  2 size, and so on. A request is sent only while fewer than \<open>max_txs\<close> transactions
  have been received and only after a full page, and the last request either failed, or
  was answered with a short page, or brought the total to \<open>max_txs\<close>.
\<close>

theorem fetcher_pages:
  assumes "0 < limit_each" and "nat max_txs < fuel"
  shows "\<exists>reqs r. fetch_txs_blockchain_info fuel get address limit_each max_txs = Some (reqs, r) \<and>
     (\<forall>txs. r = Inr txs \<longrightarrow>
        length txs \<le> nat max_txs \<and> txs = py_prefix (received get reqs) max_txs) \<and>
     (\<forall>k < length reqs. reqs ! k =
        \<lparr>req_address = address, req_limit = min limit_each 50,
          req_offset = int k * min limit_each 50\<rparr>) \<and>
     min limit_each 50 \<le> 50 \<and>
     (\<forall>k < length reqs. int (length (received get (take k reqs))) < max_txs) \<and>
     (\<forall>k. Suc k < length reqs \<longrightarrow>
        (\<exists>batch. get (reqs ! k) = Inr batch \<and> min limit_each 50 \<le> int (length batch))) \<and>
     ((reqs = [] \<and> max_txs \<le> 0 \<and> r = Inr []) \<or>
      (reqs \<noteq> [] \<and>
       (case get (last reqs) of
          Inl e \<Rightarrow> r = Inl e
        | Inr batch \<Rightarrow> (\<exists>txs. r = Inr txs) \<and>
            (int (length batch) < min limit_each 50 \<or>
             max_txs \<le> int (length (received get reqs))))))"
proof -
  from assms have pos: "0 < min limit_each 50" by simp
  from assms(2) have "nat (max_txs - int (length ([] :: transaction list))) < fuel" by simp
  from fetch_loop_returns [OF pos this, of get address 0] obtain reqs r0 where
    fl: "fetch_loop fuel get address limit_each max_txs [] 0 = Some (reqs, r0)" by blast
  define r where "r = (case r0 of Inl e \<Rightarrow> Inl e | Inr txs \<Rightarrow> Inr (py_prefix txs max_txs))"
  have ft: "fetch_txs_blockchain_info fuel get address limit_each max_txs = Some (reqs, r)"
    by (simp add: fetch_txs_blockchain_info_def fl r_def split: sum.split)
  have res: "length txs \<le> nat max_txs \<and> txs = py_prefix (received get reqs) max_txs"
    if "r = Inr txs" for txs
  proof -
    from that obtain txs0 where r0: "r0 = Inr txs0" and t: "txs = py_prefix txs0 max_txs"
      by (auto simp: r_def split: sum.splits)
    from fetch_loop_result [OF fl [unfolded r0]] have e: "txs0 = received get reqs" by simp
    have "0 \<le> max_txs \<or> txs0 = []"
    proof (cases "0 \<le> max_txs")
      case True
      then show ?thesis by simp
    next
      case False
      have "reqs = []"
      proof (rule ccontr)
        assume "reqs \<noteq> []"
        then have "0 < length reqs" by simp
        from fetch_loop_below_max [OF fl this] False show False
          by (simp add: received_Nil)
      qed
      with e have "txs0 = []" by (simp add: received_Nil)
      then show ?thesis by simp
    qed
    from length_py_prefix [OF this] t e show ?thesis by simp
  qed
  have rq: "reqs ! k = \<lparr>req_address = address, req_limit = min limit_each 50,
          req_offset = int k * min limit_each 50\<rparr>" if "k < length reqs" for k
    using fetch_loop_requests [OF fl that] by simp
  have bm: "int (length (received get (take k reqs))) < max_txs" if "k < length reqs" for k
    using fetch_loop_below_max [OF fl that] by simp
  have fp: "\<exists>batch. get (reqs ! k) = Inr batch \<and> min limit_each 50 \<le> int (length batch)"
    if "Suc k < length reqs" for k
    using fetch_loop_full_pages [OF fl that] .
  have st: "(reqs = [] \<and> max_txs \<le> 0 \<and> r = Inr []) \<or>
      (reqs \<noteq> [] \<and>
       (case get (last reqs) of
          Inl e \<Rightarrow> r = Inl e
        | Inr batch \<Rightarrow> (\<exists>txs. r = Inr txs) \<and>
            (int (length batch) < min limit_each 50 \<or>
             max_txs \<le> int (length (received get reqs)))))"
    using fetch_loop_stop [OF fl]
    by (auto simp: r_def py_prefix_def split: sum.splits)
  have "min limit_each 50 \<le> 50" by simp
  with ft res rq bm fp st show ?thesis by blast
qed

lemma fetch_call_returns:
  "\<exists>reqs r. fetch_txs_blockchain_info (Suc (MAX_TX_PER_ADDRESS cfg)) get addr 50
     (int (MAX_TX_PER_ADDRESS cfg)) = Some (reqs, r)"
proof -
  have "\<exists>reqs r. fetch_loop (Suc (MAX_TX_PER_ADDRESS cfg)) get addr 50
      (int (MAX_TX_PER_ADDRESS cfg)) [] 0 = Some (reqs, r)"
    by (rule fetch_loop_returns) simp_all
  then show ?thesis
    by (auto simp: fetch_txs_blockchain_info_def split: sum.splits)
qed

lemma two_pages_run:
  "fetch_txs_blockchain_info 4 session_two_pages ''A'' 2 3 =
     Some ([\<lparr>req_address = ''A'', req_limit = 2, req_offset = 0\<rparr>,
            \<lparr>req_address = ''A'', req_limit = 2, req_offset = 2\<rparr>],
           Inr [tx_one_in_two_out, tx_two_in_one_out, tx_no_inputs])"
  by (simp add: fetch_txs_blockchain_info_def numeral_eq_Suc session_two_pages_def py_prefix_def
      Let_def)

theorem fetcher_pages_witness:
  "(0::int) < 2 \<and> nat 3 < (4::nat) \<and>
   (\<exists>reqs r. fetch_txs_blockchain_info 4 session_two_pages ''A'' 2 3 = Some (reqs, r) \<and>
      reqs = [\<lparr>req_address = ''A'', req_limit = 2, req_offset = 0\<rparr>,
              \<lparr>req_address = ''A'', req_limit = 2, req_offset = 2\<rparr>] \<and>
      r = Inr [tx_one_in_two_out, tx_two_in_one_out, tx_no_inputs] \<and>
      (\<forall>txs. r = Inr txs \<longrightarrow> length txs \<le> nat 3))"
proof -
  have h1: "(0::int) < 2" by simp
  have h2: "nat 3 < (4::nat)" by simp
  from fetcher_pages [OF h1 h2, of session_two_pages "''A''"] obtain reqs r where
    a: "fetch_txs_blockchain_info 4 session_two_pages ''A'' 2 3 = Some (reqs, r)"
    and b: "\<forall>txs. r = Inr txs \<longrightarrow> length txs \<le> nat 3 \<and> txs = py_prefix (received session_two_pages reqs) 3"
    by blast
  from a two_pages_run have "reqs = [\<lparr>req_address = ''A'', req_limit = 2, req_offset = 0\<rparr>,
              \<lparr>req_address = ''A'', req_limit = 2, req_offset = 2\<rparr>]"
    and "r = Inr [tx_one_in_two_out, tx_two_in_one_out, tx_no_inputs]" by simp_all
  with a b h1 h2 show ?thesis by blast
qed

end
